theory Spec2Isabelle
  imports Main
begin

section \<open>Dominator analysis (libyul/backends/evm/Dominator.h)\<close>

text \<open>
  The class template \<open>Dominator<Vertex, ForEachSuccessor>\<close> is embedded with state passing.
  Line 215 of the header binds a \<open>Vertex const&\<close> to a \<open>size_t\<close> and lines 224-241 use that
  value as an array index, so the template only instantiates for a vertex type that
  converts to and from \<open>size_t\<close>: a vertex is modelled as a natural number, and the
  value-initialised vertex \<open>Vertex()\<close> is \<open>0\<close>. Indices are natural numbers as well;
  \<open>std::numeric_limits<size_t>::max()\<close> is the constant \<open>SIZE_MAX\<close>.

  A result is \<open>None\<close> when the code does not return (a loop or a recursion that never ends),
  \<open>Some (Inl e)\<close> when it fails, and \<open>Some (Inr x)\<close> when it returns \<open>x\<close>. A failed
  \<open>solAssert\<close> is \<open>AssertionFailed\<close>. Indexing a \<open>std::vector\<close> out of range is undefined
  behaviour in C++; the model makes every such access the failure \<open>OutOfBounds\<close>.
\<close>

type_synonym vertex = nat

definition SIZE_MAX :: nat where
  "SIZE_MAX = 18446744073709551615"

datatype error = AssertionFailed | OutOfBounds

type_synonym 'a result = "(error + 'a) option"

definition ret :: "'a \<Rightarrow> 'a result" where
  "ret x = Some (Inr x)"

definition fail :: "error \<Rightarrow> 'a result" where
  "fail e = Some (Inl e)"

definition bnd :: "'a result \<Rightarrow> ('a \<Rightarrow> 'b result) \<Rightarrow> 'b result" where
  "bnd m f = (case m of None \<Rightarrow> None | Some (Inl e) \<Rightarrow> Some (Inl e) | Some (Inr x) \<Rightarrow> f x)"

text \<open>\<open>xs[i]\<close> read and written on a \<open>std::vector\<close>.\<close>

definition at :: "'a list \<Rightarrow> nat \<Rightarrow> 'a result" where
  "at xs i = (if i < length xs then ret (xs ! i) else fail OutOfBounds)"

definition put :: "'a list \<Rightarrow> nat \<Rightarrow> 'a \<Rightarrow> 'a list result" where
  "put xs i x = (if i < length xs then ret (xs[i := x]) else fail OutOfBounds)"

text \<open>\<open>std::map::operator[]\<close> on \<open>std::map<Vertex, size_t>\<close>: a missing key is inserted with
  the value-initialised \<open>size_t\<close>, which is \<open>0\<close>. The value and the map after the call.\<close>

definition subscript :: "(vertex \<rightharpoonup> nat) \<Rightarrow> vertex \<Rightarrow> nat \<times> (vertex \<rightharpoonup> nat)" where
  "subscript m k = (case m k of Some i \<Rightarrow> (i, m) | None \<Rightarrow> (0, m(k \<mapsto> 0)))"

text \<open>A loop over a sequence whose body may fail: \<open>std::for_each\<close>, the range-based \<open>for\<close> and
  the callback of \<open>ForEachSuccessor\<close>.\<close>

fun for_each :: "'a list \<Rightarrow> ('a \<Rightarrow> 's \<Rightarrow> 's result) \<Rightarrow> 's \<Rightarrow> 's result" where
  "for_each [] f s = ret s"
| "for_each (x # xs) f s = bnd (f x s) (for_each xs f)"

lemma bnd_mono [partial_function_mono]:
  assumes mf: "mono_option B" and mg: "\<And>y. mono_option (\<lambda>f. C y f)"
  shows "mono_option (\<lambda>f. bnd (B f) (\<lambda>y. C y f))"
proof (rule monotoneI)
  fix f g :: "'a \<Rightarrow> 'b option"
  assume fg: "fun_ord option_ord f g"
  have b: "option_ord (B f) (B g)"
    using mf fg by (rule monotoneD [of _ _ _ f g])
  have c: "option_ord (C y f) (C y g)" for y
    using mg fg by (rule monotoneD [of _ _ _ f g])
  show "option_ord (bnd (B f) (\<lambda>y. C y f)) (bnd (B g) (\<lambda>y. C y g))"
  proof (cases "B f")
    case None
    then show ?thesis by (simp add: bnd_def flat_ord_def)
  next
    case (Some r)
    with b have "B g = Some r" by (simp add: flat_ord_def)
    with Some c show ?thesis by (cases r) (simp_all add: bnd_def flat_ord_def)
  qed
qed

lemma for_each_mono [partial_function_mono]:
  assumes "\<And>x s. mono_option (\<lambda>g. F g x s)"
  shows "mono_option (\<lambda>g. for_each xs (F g) s)"
proof (induction xs arbitrary: s)
  case Nil
  show ?case by (rule monotoneI) (simp add: flat_ord_def)
next
  case (Cons x xs)
  show ?case
    unfolding for_each.simps
    by (rule bnd_mono) (rule assms, rule Cons.IH)
qed

subsection \<open>The members and the locals of \<open>lengauerTarjanDominator\<close>\<close>

record members =
  m_vertex :: "vertex list"
  m_vertexIndex :: "vertex \<rightharpoonup> nat"

record dominator = members +
  m_immediateDominator :: "nat list"
  m_dominatorTree :: "nat \<rightharpoonup> nat list"

text \<open>The two members that exist while \<open>lengauerTarjanDominator\<close> runs, and its locals.
  \<open>std::set<size_t>\<close> is iterated in increasing order: a sorted list without duplicates.\<close>

record lt_state = members +
  semi :: "nat list"
  parent :: "nat list"
  ancestor :: "nat list"
  label :: "nat list"
  visited :: "vertex set"
  predecessors :: "nat list list"
  bucket :: "nat list list"
  idom :: "nat list"
  dfIdx :: nat

subsection \<open>\<open>compressPath\<close>, \<open>link\<close> and \<open>eval\<close>\<close>

partial_function (option) compressPath ::
  "nat list \<Rightarrow> nat list \<Rightarrow> nat list \<Rightarrow> nat \<Rightarrow> (nat list \<times> nat list) result" where
  "compressPath anc lab sem v =
     bnd (at anc v) (\<lambda>u.
       if u = SIZE_MAX then fail AssertionFailed
       else bnd (at anc u) (\<lambda>au.
         if au \<noteq> SIZE_MAX then
           bnd (compressPath anc lab sem u) (\<lambda>(anc1, lab1).
           bnd (at lab1 u) (\<lambda>lu.
           bnd (at sem lu) (\<lambda>slu.
           bnd (at lab1 v) (\<lambda>lv.
           bnd (at sem lv) (\<lambda>slv.
           bnd (if slu < slv then put lab1 v lu else ret lab1) (\<lambda>lab2.
           bnd (at anc1 u) (\<lambda>au1.
           bnd (put anc1 v au1) (\<lambda>anc2.
             ret (anc2, lab2)))))))))
         else ret (anc, lab)))"

declare compressPath.simps [code]

definition link :: "nat \<Rightarrow> nat \<Rightarrow> lt_state \<Rightarrow> lt_state result" where
  "link p w st = bnd (put (ancestor st) w p) (\<lambda>anc. ret (st\<lparr>ancestor := anc\<rparr>))"

definition eval :: "nat \<Rightarrow> lt_state \<Rightarrow> (nat \<times> lt_state) result" where
  "eval v st =
     bnd (at (ancestor st) v) (\<lambda>a.
       if a \<noteq> SIZE_MAX then
         bnd (compressPath (ancestor st) (label st) (semi st) v) (\<lambda>(anc, lab).
         bnd (at lab v) (\<lambda>l.
           ret (l, st\<lparr>ancestor := anc, label := lab\<rparr>)))
       else ret (v, st))"

subsection \<open>Step 1: the depth-first search\<close>

text \<open>Lines 195-200: the vertex \<open>v\<close> takes the next index.\<close>

definition dfs_enter :: "vertex \<Rightarrow> lt_state \<Rightarrow> lt_state result" where
  "dfs_enter v st =
     bnd (put (m_vertex st) (dfIdx st) v) (\<lambda>vs.
     bnd (put (semi st) (dfIdx st) (dfIdx st)) (\<lambda>sm.
     bnd (put (label st) (dfIdx st) (dfIdx st)) (\<lambda>lb.
       ret (st\<lparr>visited := insert v (visited st),
               m_vertex := vs,
               m_vertexIndex := (m_vertexIndex st)(v \<mapsto> dfIdx st),
               semi := sm,
               label := lb,
               dfIdx := dfIdx st + 1\<rparr>))))"

text \<open>Lines 201-208: the callback that \<open>ForEachSuccessor\<close> calls with each successor \<open>w\<close>
  of \<open>v\<close>; \<open>rec\<close> is the lambda \<open>_dfs\<close> it recurses through.\<close>

definition dfs_successor ::
  "(vertex \<Rightarrow> lt_state \<Rightarrow> lt_state result) \<Rightarrow> vertex \<Rightarrow> vertex \<Rightarrow> lt_state \<Rightarrow> lt_state result" where
  "dfs_successor rec v w s =
     bnd (at (semi s) (dfIdx s)) (\<lambda>x.
     bnd (if x = SIZE_MAX then
            bnd (put (parent s) (dfIdx s) (fst (subscript (m_vertexIndex s) v))) (\<lambda>p.
              rec w (s\<lparr>m_vertexIndex := snd (subscript (m_vertexIndex s) v), parent := p\<rparr>))
          else ret s) (\<lambda>s1.
     bnd (at (predecessors s1) (fst (subscript (m_vertexIndex s1) w))) (\<lambda>ps.
     bnd (put (predecessors s1) (fst (subscript (m_vertexIndex s1) w))
            (insort_insert
               (fst (subscript (snd (subscript (m_vertexIndex s1) w)) v)) ps)) (\<lambda>preds.
       ret (s1\<lparr>m_vertexIndex := snd (subscript (snd (subscript (m_vertexIndex s1) w)) v),
               predecessors := preds\<rparr>)))))"

lemma dfs_successor_mono [partial_function_mono]:
  assumes "\<And>w s. mono_option (\<lambda>f. R f w s)"
  shows "mono_option (\<lambda>f. dfs_successor (R f) v w s)"
  unfolding dfs_successor_def
  by (intro partial_function_mono assms)

text \<open>The lambda \<open>dfs\<close> of lines 192-209; \<open>succs v\<close> is the sequence of vertices that
  \<open>ForEachSuccessor{}(v, callback)\<close> passes to its callback.\<close>

partial_function (option) dfs ::
  "(vertex \<Rightarrow> vertex list) \<Rightarrow> vertex \<Rightarrow> lt_state \<Rightarrow> lt_state result" where
  "dfs succs v st =
     (if v \<in> visited st then ret st
      else bnd (dfs_enter v st) (for_each (succs v) (dfs_successor (dfs succs) v)))"

declare dfs.simps [code]

subsection \<open>Steps 2 and 3: the loop over the vertices in reverse\<close>

text \<open>The body of \<open>for_each\<close> over \<open>bucket[w]\<close> (step 3, lines 226-230).\<close>

definition bucket_step :: "nat \<Rightarrow> nat \<Rightarrow> lt_state \<Rightarrow> lt_state result" where
  "bucket_step w v st =
     bnd (eval v st) (\<lambda>(u, s).
     bnd (at (semi s) u) (\<lambda>su.
     bnd (at (semi s) v) (\<lambda>sv.
     bnd (put (idom s) v (if su < sv then u else w)) (\<lambda>i.
       ret (s\<lparr>idom := i\<rparr>)))))"

text \<open>The body of the loop over \<open>predecessors[w]\<close> (step 2, lines 234-239).\<close>

definition semi_step :: "nat \<Rightarrow> nat \<Rightarrow> lt_state \<Rightarrow> lt_state result" where
  "semi_step w v st =
     bnd (eval v st) (\<lambda>(u, s).
     bnd (at (semi s) u) (\<lambda>su.
     bnd (at (semi s) w) (\<lambda>sw.
       if su < sw then bnd (put (semi s) w su) (\<lambda>sm. ret (s\<lparr>semi := sm\<rparr>))
       else ret s)))"

text \<open>Lines 223-241: the body of the loop of lines 213-242, once \<open>w\<close> is known.\<close>

definition process_index :: "nat \<Rightarrow> lt_state \<Rightarrow> lt_state result" where
  "process_index w st =
     bnd (at (bucket st) w) (\<lambda>b.
     bnd (for_each b (bucket_step w) st) (\<lambda>s1.
     bnd (at (predecessors s1) w) (\<lambda>ps.
     bnd (for_each ps (semi_step w) s1) (\<lambda>s2.
     bnd (at (semi s2) w) (\<lambda>sw.
     bnd (at (bucket s2) sw) (\<lambda>bs.
     bnd (put (bucket s2) sw (bs @ [w])) (\<lambda>bk.
     bnd (at (parent s2) w) (\<lambda>p.
       link p w (s2\<lparr>bucket := bk\<rparr>)))))))))"

text \<open>One iteration of the loop of lines 213-242, for the vertex \<open>*it\<close>: line 215 looks its
  index up with \<open>operator[]\<close>.\<close>

definition process_vertex :: "vertex \<Rightarrow> lt_state \<Rightarrow> lt_state result" where
  "process_vertex x st =
     process_index (fst (subscript (m_vertexIndex st) x))
       (st\<lparr>m_vertexIndex := snd (subscript (m_vertexIndex st) x)\<rparr>)"

subsection \<open>Step 4\<close>

text \<open>The body of the loop of lines 246-251: lines 249-250, and line 248 before them.\<close>

definition fixup_index :: "nat \<Rightarrow> lt_state \<Rightarrow> lt_state result" where
  "fixup_index w st =
     bnd (at (idom st) w) (\<lambda>iw.
     bnd (at (semi st) w) (\<lambda>sw.
       if iw \<noteq> sw then
         bnd (at (idom st) iw) (\<lambda>ii.
         bnd (put (idom st) w ii) (\<lambda>i.
           ret (st\<lparr>idom := i\<rparr>)))
       else ret st))"

definition fixup_vertex :: "vertex \<Rightarrow> lt_state \<Rightarrow> lt_state result" where
  "fixup_vertex x st =
     fixup_index (fst (subscript (m_vertexIndex st) x))
       (st\<lparr>m_vertexIndex := snd (subscript (m_vertexIndex st) x)\<rparr>)"

subsection \<open>\<open>lengauerTarjanDominator\<close>\<close>

text \<open>The locals as lines 148-191 initialise them.\<close>

definition init_state :: "vertex list \<Rightarrow> (vertex \<rightharpoonup> nat) \<Rightarrow> nat \<Rightarrow> lt_state" where
  "init_state vs ix numVertices =
     \<lparr>m_vertex = vs,
      m_vertexIndex = ix,
      semi = replicate numVertices SIZE_MAX,
      parent = replicate numVertices SIZE_MAX,
      ancestor = replicate numVertices SIZE_MAX,
      label = replicate numVertices 0,
      visited = {},
      predecessors = replicate numVertices [],
      bucket = replicate numVertices [],
      idom = replicate numVertices SIZE_MAX,
      dfIdx = 0\<rparr>"

text \<open>The loop of lines 213-242 runs over \<open>m_vertex\<close> from \<open>rbegin\<close> to \<open>rend\<close>; the loop of
  lines 246-251 from \<open>begin() + 1\<close> to \<open>end\<close>. Neither loop writes \<open>m_vertex\<close>.\<close>

definition reverse_pass :: "lt_state \<Rightarrow> lt_state result" where
  "reverse_pass st = for_each (rev (m_vertex st)) process_vertex st"

definition fixup_pass :: "lt_state \<Rightarrow> lt_state result" where
  "fixup_pass st =
     bnd (put (idom st) 0 0) (\<lambda>i.
       for_each (tl (m_vertex st)) fixup_vertex (st\<lparr>idom := i\<rparr>))"

definition lengauerTarjanDominator ::
  "(vertex \<Rightarrow> vertex list) \<Rightarrow> vertex \<Rightarrow> nat \<Rightarrow> vertex list \<Rightarrow> (vertex \<rightharpoonup> nat) \<Rightarrow> lt_state result" where
  "lengauerTarjanDominator succs entry numVertices vs ix =
     (if numVertices > 0 then
        bnd (dfs succs entry (init_state vs ix numVertices)) (\<lambda>s1.
        bnd (reverse_pass s1) fixup_pass)
      else fail AssertionFailed)"

subsection \<open>The constructor and \<open>buildDominatorTree\<close>\<close>

text \<open>\<open>m_dominatorTree[k].emplace_back(i)\<close>: a missing key starts from the empty vector.\<close>

definition tree_add :: "nat list \<Rightarrow> nat \<Rightarrow> (nat \<rightharpoonup> nat list) \<Rightarrow> (nat \<rightharpoonup> nat list)" where
  "tree_add ido i t =
     t(ido ! i \<mapsto> (case t (ido ! i) of None \<Rightarrow> [] | Some cs \<Rightarrow> cs) @ [i])"

definition buildDominatorTree :: "dominator \<Rightarrow> dominator result" where
  "buildDominatorTree d =
     (if m_vertex d = [] then fail AssertionFailed
      else if m_immediateDominator d = [] then fail AssertionFailed
      else ret (d\<lparr>m_dominatorTree :=
                  fold (tree_add (m_immediateDominator d))
                    [1 ..< length (m_immediateDominator d)] (m_dominatorTree d)\<rparr>))"

text \<open>The members are initialised in the order of their declaration: \<open>m_vertex\<close> with
  \<open>numVertices\<close> value-initialised vertices, \<open>m_vertexIndex\<close> empty, \<open>m_immediateDominator\<close>
  from \<open>lengauerTarjanDominator\<close>, \<open>m_dominatorTree\<close> empty; the body then builds the tree.\<close>

definition Dominator :: "(vertex \<Rightarrow> vertex list) \<Rightarrow> vertex \<Rightarrow> nat \<Rightarrow> dominator result" where
  "Dominator succs entry numVertices =
     bnd (lengauerTarjanDominator succs entry numVertices (replicate numVertices 0) Map.empty)
       (\<lambda>s. buildDominatorTree
             \<lparr>m_vertex = m_vertex s,
              m_vertexIndex = m_vertexIndex s,
              m_immediateDominator = idom s,
              m_dominatorTree = Map.empty\<rparr>)"

subsection \<open>The queries\<close>

text \<open>The \<open>while\<close> loop of \<open>dominates\<close> (lines 83-91).\<close>

partial_function (option) dominates_loop :: "nat list \<Rightarrow> nat \<Rightarrow> nat \<Rightarrow> bool result" where
  "dominates_loop ido aIdx idomIdx =
     (if idomIdx \<noteq> 0 then
        (if idomIdx = aIdx then ret True
         else bnd (at ido idomIdx) (dominates_loop ido aIdx))
      else ret (idomIdx = aIdx))"

declare dominates_loop.simps [code]

text \<open>Both queries are non-\<open>const\<close> members and look the vertices up with \<open>operator[]\<close>;
  they return their value and the object after the call.\<close>

definition dominates :: "dominator \<Rightarrow> vertex \<Rightarrow> vertex \<Rightarrow> (bool \<times> dominator) result" where
  "dominates d a b =
     (case subscript (m_vertexIndex d) a of (aIdx, m1) \<Rightarrow>
      case subscript m1 b of (bIdx, m2) \<Rightarrow>
        if aIdx = bIdx then ret (True, d\<lparr>m_vertexIndex := m2\<rparr>)
        else
          bnd (at (m_immediateDominator d) bIdx) (\<lambda>idomIdx.
          bnd (dominates_loop (m_immediateDominator d) aIdx idomIdx) (\<lambda>r.
            ret (r, d\<lparr>m_vertexIndex := m2\<rparr>))))"

text \<open>The \<open>while\<close> loop of \<open>dominatorsOf\<close> (lines 106-111).\<close>

partial_function (option) dominatorsOf_loop ::
  "vertex list \<Rightarrow> nat list \<Rightarrow> vertex list \<Rightarrow> nat \<Rightarrow> vertex list result" where
  "dominatorsOf_loop vs ido dominators idomIdx =
     (if idomIdx \<noteq> 0 then
        bnd (at vs idomIdx) (\<lambda>x.
        bnd (at ido idomIdx) (\<lambda>i.
          dominatorsOf_loop vs ido (dominators @ [x]) i))
      else ret dominators)"

declare dominatorsOf_loop.simps [code]

definition dominatorsOf :: "dominator \<Rightarrow> vertex \<Rightarrow> (vertex list \<times> dominator) result" where
  "dominatorsOf d v =
     (if m_vertex d = [] then fail AssertionFailed
      else
        (case subscript (m_vertexIndex d) v of (vIdx, m) \<Rightarrow>
           bnd (at (m_immediateDominator d) vIdx) (\<lambda>idomIdx.
             if idomIdx = 0 then ret ([m_vertex d ! 0], d\<lparr>m_vertexIndex := m\<rparr>)
             else
               bnd (dominatorsOf_loop (m_vertex d) (m_immediateDominator d) [m_vertex d ! 0] idomIdx)
                 (\<lambda>r. ret (r, d\<lparr>m_vertexIndex := m\<rparr>)))))"

subsection \<open>The graphs of the end-to-end scenarios\<close>

definition vA :: vertex where "vA = 0"
definition vB :: vertex where "vB = 1"
definition vC :: vertex where "vC = 2"
definition vD :: vertex where "vD = 3"

text \<open>Linear chain: \<open>A\<rightarrow>B, B\<rightarrow>C, C\<rightarrow>D\<close>.\<close>

definition linear_chain :: "vertex \<Rightarrow> vertex list" where
  "linear_chain v =
     (if v = vA then [vB] else if v = vB then [vC] else if v = vC then [vD] else [])"

text \<open>Diamond: \<open>A\<rightarrow>B, A\<rightarrow>C, B\<rightarrow>D, C\<rightarrow>D\<close>.\<close>

definition diamond :: "vertex \<Rightarrow> vertex list" where
  "diamond v =
     (if v = vA then [vB, vC] else if v = vB then [vD] else if v = vC then [vD] else [])"

text \<open>A single vertex with an edge to itself: \<open>A\<rightarrow>A\<close>.\<close>

definition self_loop :: "vertex \<Rightarrow> vertex list" where
  "self_loop v = (if v = vA then [vA] else [])"

text \<open>The object that the constructor builds for the linear chain with four vertices.\<close>

definition chain_dominator :: dominator where
  "chain_dominator =
     \<lparr>m_vertex = [vA, vB, vC, vD],
      m_vertexIndex = [vA \<mapsto> 0, vB \<mapsto> 1, vC \<mapsto> 2, vD \<mapsto> 3],
      m_immediateDominator = [0, 0, 1, 2],
      m_dominatorTree = [0 \<mapsto> [1], 1 \<mapsto> [2], 2 \<mapsto> [3]]\<rparr>"

text \<open>The object that the constructor builds for the diamond when \<open>numVertices\<close> is 5.\<close>

definition diamond_dominator :: dominator where
  "diamond_dominator =
     \<lparr>m_vertex = [vA, vB, vD, vC, 0],
      m_vertexIndex = [vA \<mapsto> 0, vB \<mapsto> 1, vD \<mapsto> 2, vC \<mapsto> 3],
      m_immediateDominator = [0, 0, 0, 0, SIZE_MAX],
      m_dominatorTree = [0 \<mapsto> [1, 2, 3], SIZE_MAX \<mapsto> [4]]\<rparr>"

text \<open>A chain whose entry is not the vertex 0: the entry is 1, with the edges \<open>1\<rightarrow>0\<close> and
  \<open>0\<rightarrow>2\<close>. With \<open>Vertex = size_t\<close>, the vertex 0 is the value that a slot of \<open>m_vertex\<close>
  holds before the search writes it.\<close>

definition short_chain :: "vertex \<Rightarrow> vertex list" where
  "short_chain v = (if v = 1 then [0] else if v = 0 then [2] else [])"

text \<open>The objects that the constructor builds for this chain when \<open>numVertices\<close> is 4 and
  when it is 3.\<close>

definition short_chain_dominator_4 :: dominator where
  "short_chain_dominator_4 =
     \<lparr>m_vertex = [1, 0, 2, 0],
      m_vertexIndex = [1 \<mapsto> 0, 0 \<mapsto> 1, 2 \<mapsto> 2],
      m_immediateDominator = [0, 0, 0, SIZE_MAX],
      m_dominatorTree = [0 \<mapsto> [1, 2], SIZE_MAX \<mapsto> [3]]\<rparr>"

definition short_chain_dominator_3 :: dominator where
  "short_chain_dominator_3 =
     \<lparr>m_vertex = [1, 0, 2],
      m_vertexIndex = [1 \<mapsto> 0, 0 \<mapsto> 1, 2 \<mapsto> 2],
      m_immediateDominator = [0, 0, 1],
      m_dominatorTree = [0 \<mapsto> [1], 1 \<mapsto> [2]]\<rparr>"

text \<open>The state of \<open>lengauerTarjanDominator\<close> after the depth-first search of the linear
  chain.\<close>

definition chain_dfs_state :: lt_state where
  "chain_dfs_state =
     \<lparr>m_vertex = [vA, vB, vC, vD],
      m_vertexIndex = [vA \<mapsto> 0, vB \<mapsto> 1, vC \<mapsto> 2, vD \<mapsto> 3],
      semi = [0, 1, 2, 3],
      parent = [SIZE_MAX, 0, 1, 2],
      ancestor = [SIZE_MAX, SIZE_MAX, SIZE_MAX, SIZE_MAX],
      label = [0, 1, 2, 3],
      visited = {vA, vB, vC, vD},
      predecessors = [[], [0], [1], [2]],
      bucket = [[], [], [], []],
      idom = [SIZE_MAX, SIZE_MAX, SIZE_MAX, SIZE_MAX],
      dfIdx = 4\<rparr>"

subsection \<open>Sequences of queries\<close>

datatype query = Dominates vertex vertex | DominatorsOf vertex

text \<open>The object after a query.\<close>

fun run_query :: "query \<Rightarrow> dominator \<Rightarrow> dominator result" where
  "run_query (Dominates a b) d = bnd (dominates d a b) (\<lambda>r. ret (snd r))"
| "run_query (DominatorsOf v) d = bnd (dominatorsOf d v) (\<lambda>r. ret (snd r))"

fun query_vertices :: "query \<Rightarrow> vertex set" where
  "query_vertices (Dominates a b) = {a, b}"
| "query_vertices (DominatorsOf v) = {v}"

text \<open>The map after \<open>operator[]\<close> was called with each key of \<open>V\<close>.\<close>

definition inserted :: "(vertex \<rightharpoonup> nat) \<Rightarrow> vertex set \<Rightarrow> (vertex \<rightharpoonup> nat)" where
  "inserted m V = (\<lambda>v. if m v = None \<and> v \<in> V then Some 0 else m v)"

section \<open>Reachability, dominator chains and invariants\<close>

text \<open>The loop of lines 213-242 as the specification words it: the indices \<open>n - 1\<close> down to
  1, index 0 skipped. It is written from the specification, to be compared with
  \<open>reverse_pass\<close>.\<close>

definition reverse_pass_spec :: "lt_state \<Rightarrow> lt_state result" where
  "reverse_pass_spec st = for_each (rev [1 ..< length (m_vertex st)]) process_index st"

text \<open>The vertices that a path of successor edges reaches from the entry.\<close>

inductive reachable :: "(vertex \<Rightarrow> vertex list) \<Rightarrow> vertex \<Rightarrow> vertex \<Rightarrow> bool"
  for succs :: "vertex \<Rightarrow> vertex list" and entry :: vertex where
  reachable_entry: "reachable succs entry entry"
| reachable_step: "reachable succs entry u \<Longrightarrow> w \<in> set (succs u) \<Longrightarrow> reachable succs entry w"

code_pred reachable .

text \<open>The graph in which no edge leaves \<open>a\<close>.\<close>

definition without :: "vertex \<Rightarrow> (vertex \<Rightarrow> vertex list) \<Rightarrow> vertex \<Rightarrow> vertex list" where
  "without a succs v = (if v = a then [] else succs v)"

text \<open>Dominance as the graph defines it, to compare the result of \<open>dominatorsOf\<close> with:
  \<open>a\<close> is a strict dominator of a reachable vertex \<open>b\<close> when \<open>a\<close> is not \<open>b\<close> and every path
  from the entry to \<open>b\<close> passes through \<open>a\<close>, that is, no path reaches \<open>b\<close> once the edges
  leaving \<open>a\<close> are removed.\<close>

definition strict_dominator ::
  "(vertex \<Rightarrow> vertex list) \<Rightarrow> vertex \<Rightarrow> vertex \<Rightarrow> vertex \<Rightarrow> bool" where
  "strict_dominator succs entry a b \<longleftrightarrow>
     a \<noteq> b \<and> reachable succs entry b \<and> \<not> reachable (without a succs) entry b"

text \<open>\<open>idom_walk ido j js\<close>: \<open>js\<close> lists the indices met from \<open>j\<close> by following \<open>ido\<close>, up to
  index 0, which is not listed.\<close>

fun idom_walk :: "nat list \<Rightarrow> nat \<Rightarrow> nat list \<Rightarrow> bool" where
  "idom_walk ido j [] \<longleftrightarrow> j = 0"
| "idom_walk ido j (k # ks) \<longleftrightarrow> j = k \<and> k \<noteq> 0 \<and> idom_walk ido (ido ! k) ks"

text \<open>The link/eval forest: an ancestor is undefined or an earlier index; a label is not later
  than its index, and neither is the semidominator of the label.\<close>

definition forest_inv :: "nat list \<Rightarrow> nat list \<Rightarrow> nat list \<Rightarrow> bool" where
  "forest_inv sem anc lab \<longleftrightarrow>
     length anc = length sem \<and> length lab = length sem \<and>
     (\<forall>i<length sem. (anc ! i = SIZE_MAX \<or> anc ! i < i) \<and> lab ! i \<le> i \<and> sem ! (lab ! i) \<le> i)"

text \<open>The locals of \<open>lengauerTarjanDominator\<close> between two iterations of the loop of lines
  213-242; \<open>dfIdx\<close> is the number of vertices that the search numbered.\<close>

definition lt_inv :: "lt_state \<Rightarrow> bool" where
  "lt_inv st \<longleftrightarrow>
     length (semi st) = length (m_vertex st) \<and> length (parent st) = length (m_vertex st) \<and>
     length (predecessors st) = length (m_vertex st) \<and>
     length (bucket st) = length (m_vertex st) \<and> length (idom st) = length (m_vertex st) \<and>
     0 < dfIdx st \<and> dfIdx st \<le> length (m_vertex st) \<and>
     forest_inv (semi st) (ancestor st) (label st) \<and>
     (\<forall>i<dfIdx st. semi st ! i \<le> i) \<and>
     (\<forall>i<length (m_vertex st). parent st ! i = SIZE_MAX \<or> parent st ! i < i) \<and>
     (\<forall>i. 0 < i \<and> i < dfIdx st \<longrightarrow>
        parent st ! i < i \<and> parent st ! i \<in> set (predecessors st ! i)) \<and>
     (\<forall>j<length (m_vertex st). \<forall>v\<in>set (bucket st ! j). j < v \<or> v = 0)"

text \<open>The index map and the first \<open>r\<close> slots of the vertex table.\<close>

definition index_inv :: "(vertex \<rightharpoonup> nat) \<Rightarrow> vertex list \<Rightarrow> nat \<Rightarrow> bool" where
  "index_inv m vs r \<longleftrightarrow> (\<forall>v i. m v = Some i \<longrightarrow> i < r) \<and> (\<forall>i<r. m (vs ! i) = Some i)"

text \<open>Once the slots from \<open>k\<close> on are processed, each of their vertices has an earlier
  immediate dominator or waits in the bucket of an earlier index.\<close>

definition progress :: "nat \<Rightarrow> lt_state \<Rightarrow> bool" where
  "progress k st \<longleftrightarrow>
     (\<forall>v. k \<le> v \<and> 0 < v \<and> v < dfIdx st \<longrightarrow>
        idom st ! v < v \<or> (\<exists>j<k. v \<in> set (bucket st ! j)))"

text \<open>Index 0 is its own immediate dominator and every other index below \<open>r\<close> has an earlier
  one.\<close>

definition idom_ok :: "nat \<Rightarrow> nat list \<Rightarrow> bool" where
  "idom_ok r ido \<longleftrightarrow> ido ! 0 = 0 \<and> (\<forall>v. 0 < v \<and> v < r \<longrightarrow> ido ! v < v)"

text \<open>What the loop of lines 246-251 keeps.\<close>

definition fixup_inv :: "lt_state \<Rightarrow> lt_state \<Rightarrow> bool" where
  "fixup_inv st0 st \<longleftrightarrow>
     m_vertex st = m_vertex st0 \<and> dfIdx st = dfIdx st0 \<and> length (idom st) = length (idom st0)
     \<and> index_inv (m_vertexIndex st) (m_vertex st0) (dfIdx st0)
     \<and> (\<forall>v j. m_vertexIndex st0 v = Some j \<longrightarrow> m_vertexIndex st v = Some j)
     \<and> idom_ok (dfIdx st0) (idom st)"

text \<open>The state of the depth-first search between two calls.\<close>

definition dfs_inv :: "(vertex \<Rightarrow> vertex list) \<Rightarrow> vertex \<Rightarrow> lt_state \<Rightarrow> bool" where
  "dfs_inv succs entry st \<longleftrightarrow>
     length (semi st) = length (m_vertex st) \<and> length (parent st) = length (m_vertex st) \<and>
     length (label st) = length (m_vertex st) \<and>
     length (predecessors st) = length (m_vertex st) \<and>
     dfIdx st \<le> length (m_vertex st) \<and>
     (\<forall>v i. m_vertexIndex st v = Some i \<longrightarrow> i < dfIdx st \<and> v \<in> visited st) \<and>
     (\<forall>v. v \<in> visited st \<longrightarrow> m_vertexIndex st v \<noteq> None) \<and>
     (\<forall>i<dfIdx st. m_vertexIndex st (m_vertex st ! i) = Some i) \<and>
     (\<forall>i<dfIdx st. semi st ! i = i \<and> label st ! i = i) \<and>
     (\<forall>i. dfIdx st \<le> i \<and> i < length (m_vertex st) \<longrightarrow>
        semi st ! i = SIZE_MAX \<and> label st ! i = 0) \<and>
     (\<forall>i<length (m_vertex st). parent st ! i = SIZE_MAX \<or> parent st ! i < i) \<and>
     (\<forall>i. 0 < i \<and> i < dfIdx st \<longrightarrow> parent st ! i < i) \<and>
     finite (visited st) \<and> card (visited st) = dfIdx st \<and>
     (\<forall>v. v \<in> visited st \<longrightarrow> reachable succs entry v) \<and>
     (0 < dfIdx st \<longrightarrow> m_vertex st ! 0 = entry)"

text \<open>What a later state keeps of an earlier one.\<close>

definition dfs_ext :: "lt_state \<Rightarrow> lt_state \<Rightarrow> bool" where
  "dfs_ext a b \<longleftrightarrow>
     dfIdx a \<le> dfIdx b \<and> visited a \<subseteq> visited b \<and>
     length (m_vertex b) = length (m_vertex a) \<and>
     ancestor b = ancestor a \<and> bucket b = bucket a \<and> idom b = idom a \<and>
     (\<forall>i<dfIdx a. parent b ! i = parent a ! i) \<and>
     (\<forall>i<length (m_vertex a). set (predecessors a ! i) \<subseteq> set (predecessors b ! i)) \<and>
     (\<forall>u. u \<in> visited a \<longrightarrow> m_vertexIndex b u = m_vertexIndex a u)"

text \<open>The tree edges into the indices from \<open>lo\<close> on are recorded as predecessors.\<close>

definition tree_edges :: "nat \<Rightarrow> lt_state \<Rightarrow> bool" where
  "tree_edges lo b \<longleftrightarrow>
     (\<forall>i. lo \<le> i \<and> i < dfIdx b \<longrightarrow> parent b ! i \<in> set (predecessors b ! i))"

text \<open>Every successor of a vertex visited between the two states is visited.\<close>

definition explored :: "(vertex \<Rightarrow> vertex list) \<Rightarrow> lt_state \<Rightarrow> lt_state \<Rightarrow> bool" where
  "explored succs a b \<longleftrightarrow>
     (\<forall>u. u \<in> visited b \<and> u \<notin> visited a \<longrightarrow> (\<forall>w. w \<in> set (succs u) \<longrightarrow> w \<in> visited b))"

text \<open>What a call of \<open>dfs\<close> on \<open>v\<close> starts from: line 204 has written the parent of the next
  index.\<close>

definition dfs_pre :: "(vertex \<Rightarrow> vertex list) \<Rightarrow> vertex \<Rightarrow> vertex \<Rightarrow> lt_state \<Rightarrow> bool" where
  "dfs_pre succs entry v st \<longleftrightarrow>
     dfs_inv succs entry st \<and> reachable succs entry v \<and>
     (dfIdx st = 0 \<longrightarrow> v = entry) \<and>
     (0 < dfIdx st \<and> dfIdx st < length (m_vertex st) \<longrightarrow> parent st ! dfIdx st < dfIdx st)"

text \<open>What a call of \<open>dfs\<close> on \<open>v\<close> returns.\<close>

definition dfs_post :: "(vertex \<Rightarrow> vertex list) \<Rightarrow> vertex \<Rightarrow> vertex \<Rightarrow> lt_state \<Rightarrow> lt_state \<Rightarrow> bool" where
  "dfs_post succs entry v st st' \<longleftrightarrow>
     dfs_inv succs entry st' \<and> dfs_ext st st' \<and> v \<in> visited st' \<and>
     (dfIdx st < length (m_vertex st) \<longrightarrow> parent st' ! dfIdx st = parent st ! dfIdx st) \<and>
     (v \<in> visited st \<longrightarrow> dfIdx st' = dfIdx st) \<and>
     (v \<notin> visited st \<longrightarrow> m_vertexIndex st' v = Some (dfIdx st)) \<and>
     tree_edges (Suc (dfIdx st)) st' \<and> explored succs st st'"

text \<open>The state between two successors of a vertex, \<open>s0\<close> being the state after the vertex
  took its index and \<open>ys\<close> the successors already handled.\<close>

definition dfs_loop_inv ::
  "(vertex \<Rightarrow> vertex list) \<Rightarrow> vertex \<Rightarrow> lt_state \<Rightarrow> vertex list \<Rightarrow> lt_state \<Rightarrow> bool" where
  "dfs_loop_inv succs entry s0 ys s \<longleftrightarrow>
     dfs_inv succs entry s \<and> dfs_ext s0 s \<and> tree_edges (dfIdx s0) s \<and> explored succs s0 s \<and>
     (\<forall>w. w \<in> set ys \<longrightarrow> w \<in> visited s)"

text \<open>What holds of every object that the constructor returns.\<close>

definition constructed :: "(vertex \<Rightarrow> vertex list) \<Rightarrow> vertex \<Rightarrow> nat \<Rightarrow> dominator \<Rightarrow> bool" where
  "constructed succs entry n d \<longleftrightarrow>
     length (m_vertex d) = n \<and> length (m_immediateDominator d) = n \<and>
     0 < card {v. reachable succs entry v} \<and> card {v. reachable succs entry v} \<le> n \<and>
     m_vertex d ! 0 = entry \<and>
     index_inv (m_vertexIndex d) (m_vertex d) (card {v. reachable succs entry v}) \<and>
     (\<forall>v. reachable succs entry v \<longrightarrow> m_vertexIndex d v \<noteq> None) \<and>
     idom_ok (card {v. reachable succs entry v}) (m_immediateDominator d)"

section \<open>Evaluating the model\<close>

lemma replicate_numeral: "replicate (numeral k) x = x # replicate (pred_numeral k) x"
  by (simp add: numeral_eq_Suc)

lemma Suc_numerals:
  "Suc (Suc 0) = 2" "Suc (Suc (Suc 0)) = 3" "Suc (Suc (Suc (Suc 0))) = 4"
  by simp_all

lemmas result_defs = ret_def fail_def bnd_def at_def put_def subscript_def

lemmas model_defs =
  link_def eval_def bucket_step_def semi_step_def process_index_def process_vertex_def
  fixup_index_def fixup_vertex_def init_state_def reverse_pass_def fixup_pass_def
  lengauerTarjanDominator_def tree_add_def buildDominatorTree_def Dominator_def
  dfs_enter_def dfs_successor_def insort_insert_key_def

lemmas query_defs = dominates_def dominatorsOf_def dominates_loop.simps dominatorsOf_loop.simps

lemmas scenario_defs = vA_def vB_def vC_def vD_def linear_chain_def diamond_def self_loop_def

lemma linear_chain_dfs:
  "dfs linear_chain vA (init_state (replicate 4 0) Map.empty 4) = Some (Inr chain_dfs_state)"
  by (simp add: result_defs model_defs scenario_defs SIZE_MAX_def dfs.simps replicate_numeral
      chain_dfs_state_def insert_commute Suc_numerals)

lemma linear_chain_Dominator: "Dominator linear_chain vA 4 = Some (Inr chain_dominator)"
  by (simp add: result_defs model_defs scenario_defs SIZE_MAX_def dfs.simps compressPath.simps
      replicate_numeral chain_dominator_def Suc_numerals upt_conv_Cons)

lemma diamond_Dominator_5: "Dominator diamond vA 5 = Some (Inr diamond_dominator)"
  by (simp add: result_defs model_defs scenario_defs SIZE_MAX_def dfs.simps compressPath.simps
      replicate_numeral diamond_dominator_def Suc_numerals upt_conv_Cons)

lemma diamond_queries_5:
  "dominates diamond_dominator vB vD = Some (Inr (False, diamond_dominator))"
  "dominates diamond_dominator vA vD = Some (Inr (True, diamond_dominator))"
  by (simp_all add: result_defs scenario_defs SIZE_MAX_def dominates_def dominates_loop.simps
      diamond_dominator_def)

text \<open>With exactly four slots the search of the diamond numbers \<open>A, B, D, C\<close> and the
  callback for the edge \<open>C\<rightarrow>D\<close> reads \<open>semi[4]\<close> (line 202), past the end of the vector: the
  behaviour of the C++ code is undefined there, and the model stops with \<open>OutOfBounds\<close>.\<close>

lemma diamond_4_reads_semi_out_of_bounds:
  "Dominator diamond vA 4 = Some (Inl OutOfBounds)"
  by (simp add: result_defs model_defs scenario_defs SIZE_MAX_def dfs.simps replicate_numeral)

lemma short_chain_Dominator_4: "Dominator short_chain 1 4 = Some (Inr short_chain_dominator_4)"
  by (simp add: result_defs model_defs short_chain_def SIZE_MAX_def dfs.simps compressPath.simps
      replicate_numeral short_chain_dominator_4_def Suc_numerals upt_conv_Cons)

lemma short_chain_Dominator_3: "Dominator short_chain 1 3 = Some (Inr short_chain_dominator_3)"
  by (simp add: result_defs model_defs short_chain_def SIZE_MAX_def dfs.simps compressPath.simps
      replicate_numeral short_chain_dominator_3_def Suc_numerals upt_conv_Cons)

lemma short_chain_dominatorsOf:
  "dominatorsOf short_chain_dominator_4 2 = Some (Inr ([1], short_chain_dominator_4))"
  "dominatorsOf short_chain_dominator_3 2 = Some (Inr ([1, 0], short_chain_dominator_3))"
  by (simp_all add: result_defs query_defs SIZE_MAX_def
      short_chain_dominator_4_def short_chain_dominator_3_def)

lemma short_chain_reachable: "reachable short_chain 1 2"
proof -
  have "reachable short_chain 1 0"
    by (rule reachable_step [OF reachable_entry]) (simp add: short_chain_def)
  then show ?thesis
    by (rule reachable_step) (simp add: short_chain_def)
qed

lemma short_chain_without:
  "reachable (without 0 short_chain) 1 v \<Longrightarrow> v = 1 \<or> v = 0"
  by (induction rule: reachable.induct) (auto simp: without_def short_chain_def split: if_splits)

lemma short_chain_strict_dominator: "strict_dominator short_chain 1 0 2"
  using short_chain_reachable short_chain_without [of 2] by (auto simp: strict_dominator_def)

section \<open>Results of the monad\<close>

lemma bnd_Inr: "bnd m f = Some (Inr y) \<longleftrightarrow> (\<exists>x. m = Some (Inr x) \<and> f x = Some (Inr y))"
  by (auto simp: bnd_def split: option.splits sum.splits)

lemma ret_Inr: "ret x = Some (Inr y) \<longleftrightarrow> y = x"
  by (auto simp: ret_def)

lemma fail_Inr: "fail e \<noteq> Some (Inr y)"
  by (simp add: fail_def)

lemma at_Inr: "at xs i = Some (Inr x) \<longleftrightarrow> i < length xs \<and> x = xs ! i"
  by (auto simp: at_def ret_def fail_def)

lemma put_Inr: "put xs i v = Some (Inr ys) \<longleftrightarrow> i < length xs \<and> ys = xs[i := v]"
  by (auto simp: put_def ret_def fail_def)

lemmas result_simps = bnd_Inr ret_Inr fail_Inr at_Inr put_Inr

lemma inserted_single: "inserted m {k} = (if m k = None then m(k \<mapsto> 0) else m)"
  by (auto simp: inserted_def fun_eq_iff)

lemma subscript_eq:
  "subscript m k = (i, m') \<longleftrightarrow> i = (case m k of None \<Rightarrow> 0 | Some j \<Rightarrow> j) \<and> m' = inserted m {k}"
  by (cases "m k") (auto simp: subscript_def inserted_single)

lemma snd_subscript: "snd (subscript m k) = inserted m {k}"
  by (cases "m k") (auto simp: subscript_def inserted_single)

lemma fst_subscript: "fst (subscript m k) = (case m k of None \<Rightarrow> 0 | Some i \<Rightarrow> i)"
  by (cases "m k") (auto simp: subscript_def)

lemma inserted_inserted: "inserted (inserted m V) W = inserted m (V \<union> W)"
  by (auto simp: inserted_def fun_eq_iff)

lemma inserted_known: "V \<subseteq> dom m \<Longrightarrow> inserted m V = m"
  by (auto simp: inserted_def fun_eq_iff)

lemma dominates_state:
  "dominates d a b = Some (Inr (r, d')) \<Longrightarrow> d' = d\<lparr>m_vertexIndex := inserted (m_vertexIndex d) {a, b}\<rparr>"
  by (auto simp: dominates_def result_simps subscript_eq inserted_inserted insert_commute
      split: prod.splits if_splits)

lemma dominatorsOf_state:
  "dominatorsOf d v = Some (Inr (r, d')) \<Longrightarrow> d' = d\<lparr>m_vertexIndex := inserted (m_vertexIndex d) {v}\<rparr>"
  by (auto simp: dominatorsOf_def result_simps subscript_eq split: prod.splits if_splits)

lemma run_query_state:
  "run_query q d = Some (Inr d') \<Longrightarrow> d' = d\<lparr>m_vertexIndex := inserted (m_vertexIndex d) (query_vertices q)\<rparr>"
  by (cases q) (auto simp: result_simps dest: dominates_state dominatorsOf_state)

lemma run_queries_state:
  "for_each qs run_query d = Some (Inr d') \<Longrightarrow>
   d' = d\<lparr>m_vertexIndex := inserted (m_vertexIndex d) (\<Union>q\<in>set qs. query_vertices q)\<rparr>"
proof (induction qs arbitrary: d)
  case Nil
  then show ?case by (simp add: result_simps inserted_def)
next
  case (Cons q qs)
  from Cons.prems obtain d1 where q: "run_query q d = Some (Inr d1)"
    and qs: "for_each qs run_query d1 = Some (Inr d')"
    by (auto simp: result_simps)
  show ?case
    using Cons.IH [OF qs] run_query_state [OF q]
    by (simp add: inserted_inserted)
qed

section \<open>The invariants of the construction\<close>

lemma forest_invD:
  assumes "forest_inv sem anc lab" "i < length sem"
  shows "anc ! i = SIZE_MAX \<or> anc ! i < i" "lab ! i \<le> i" "sem ! (lab ! i) \<le> i"
  using assms by (auto simp: forest_inv_def)

lemma forest_inv_length:
  "forest_inv sem anc lab \<Longrightarrow> length anc = length sem \<and> length lab = length sem"
  by (simp add: forest_inv_def)

lemma forest_inv_compress_step:
  assumes inv: "forest_inv sem anc lab"
    and v: "v < length sem" and u: "u < v"
    and l: "lab' = lab \<or> (lab' = lab[v := lab ! u] \<and> sem ! (lab ! u) < sem ! (lab ! v))"
  shows "forest_inv sem (anc[v := anc ! u]) lab'"
proof -
  have len: "length anc = length sem" "length lab = length sem"
    using inv by (simp_all add: forest_inv_def)
  have ul: "u < length sem" using u v by simp
  have au: "anc ! u = SIZE_MAX \<or> anc ! u < v"
    using forest_invD(1) [OF inv ul] u by auto
  have lu: "lab ! u \<le> v"
    using forest_invD(2) [OF inv ul] u by simp
  have slv: "sem ! (lab ! v) \<le> v"
    using forest_invD(3) [OF inv v] .
  show ?thesis
    unfolding forest_inv_def
  proof (intro conjI allI impI)
    show "length (anc[v := anc ! u]) = length sem" using len by simp
    show "length lab' = length sem" using l len by auto
  next
    fix i assume i: "i < length sem"
    show "anc[v := anc ! u] ! i = SIZE_MAX \<or> anc[v := anc ! u] ! i < i"
      using forest_invD(1) [OF inv i] au len i by (cases "i = v") auto
    show "lab' ! i \<le> i"
      using forest_invD(2) [OF inv i] lu l len i by (cases "i = v") auto
    show "sem ! (lab' ! i) \<le> i"
      using forest_invD(3) [OF inv i] slv l len i by (cases "i = v") auto
  qed
qed

lemma compressPath_forest_inv_aux:
  assumes "compressPath anc lab sem v = Some r"
  shows "forest_inv sem anc lab \<longrightarrow> (\<forall>anc' lab'. r = Inr (anc', lab') \<longrightarrow> forest_inv sem anc' lab')"
  using assms
proof (induction rule: compressPath.raw_induct [rotated 1, consumes 1])
    case (1 cp anc lab sem v r)
    show ?case
    proof (intro impI allI)
      fix anc' lab'
      assume inv: "forest_inv sem anc lab" and r: "r = Inr (anc', lab')"
      have len: "length anc = length sem" "length lab = length sem"
        using inv by (simp_all add: forest_inv_def)
      from 1(2) r obtain u where v: "v < length sem" and u: "u = anc ! v" "u \<noteq> SIZE_MAX"
        and ul: "u < length sem"
        and rest: "(if anc ! u \<noteq> SIZE_MAX then
           bnd (cp anc lab sem u) (\<lambda>(anc1, lab1).
           bnd (at lab1 u) (\<lambda>lu.
           bnd (at sem lu) (\<lambda>slu.
           bnd (at lab1 v) (\<lambda>lv.
           bnd (at sem lv) (\<lambda>slv.
           bnd (if slu < slv then put lab1 v lu else ret lab1) (\<lambda>lab2.
           bnd (at anc1 u) (\<lambda>au1.
           bnd (put anc1 v au1) (\<lambda>anc2.
             ret (anc2, lab2)))))))))
         else ret (anc, lab)) = Some (Inr (anc', lab'))"
        using len by (auto simp: result_simps split: if_splits)
      have uv: "u < v"
        using forest_invD(1) [OF inv v] u by auto
      show "forest_inv sem anc' lab'"
      proof (cases "anc ! u \<noteq> SIZE_MAX")
        case False
        with rest inv show ?thesis by (simp add: result_simps)
      next
        case True
        with rest have "\<exists>anc1 lab1. cp anc lab sem u = Some (Inr (anc1, lab1))
            \<and> lab' = (if sem ! (lab1 ! u) < sem ! (lab1 ! v) then lab1[v := lab1 ! u] else lab1)
            \<and> anc' = anc1[v := anc1 ! u]"
          by (auto simp: result_simps split: if_splits prod.splits)
        then obtain anc1 lab1 where
          rec: "cp anc lab sem u = Some (Inr (anc1, lab1))"
          and lab': "lab' = (if sem ! (lab1 ! u) < sem ! (lab1 ! v) then lab1[v := lab1 ! u] else lab1)"
          and anc': "anc' = anc1[v := anc1 ! u]"
          by blast
        have inv1: "forest_inv sem anc1 lab1"
          using 1(1) [OF rec] inv by simp
        show ?thesis
          unfolding anc'
          by (rule forest_inv_compress_step [OF inv1 v uv]) (simp add: lab')
      qed
    qed
qed

lemma compressPath_forest_inv:
  assumes "compressPath anc lab sem v = Some (Inr (anc', lab'))" "forest_inv sem anc lab"
  shows "forest_inv sem anc' lab'"
  using compressPath_forest_inv_aux [OF assms(1)] assms(2) by blast

lemma forest_inv_semi_decrease:
  assumes inv: "forest_inv sem anc lab" and w: "w < length sem" and x: "x \<le> sem ! w"
  shows "forest_inv (sem[w := x]) anc lab"
  unfolding forest_inv_def
proof (intro conjI allI impI)
  show "length anc = length (sem[w := x])" "length lab = length (sem[w := x])"
    using inv by (simp_all add: forest_inv_def)
next
  fix i assume i: "i < length (sem[w := x])"
  then have i': "i < length sem" by simp
  show "anc ! i = SIZE_MAX \<or> anc ! i < i" "lab ! i \<le> i"
    using forest_invD [OF inv i'] by simp_all
  have "sem[w := x] ! (lab ! i) \<le> sem ! (lab ! i)"
    using x w by (cases "lab ! i = w") simp_all
  then show "sem[w := x] ! (lab ! i) \<le> i"
    using forest_invD(3) [OF inv i'] by simp
qed

lemma forest_inv_link:
  assumes inv: "forest_inv sem anc lab" and w: "w < length sem" and p: "p = SIZE_MAX \<or> p < w"
  shows "forest_inv sem (anc[w := p]) lab"
  unfolding forest_inv_def
proof (intro conjI allI impI)
  show "length (anc[w := p]) = length sem" "length lab = length sem"
    using inv by (simp_all add: forest_inv_def)
next
  fix i assume i: "i < length sem"
  show "lab ! i \<le> i" "sem ! (lab ! i) \<le> i"
    using forest_invD [OF inv i] by simp_all
  show "anc[w := p] ! i = SIZE_MAX \<or> anc[w := p] ! i < i"
    using forest_invD(1) [OF inv i] p forest_inv_length [OF inv] i by (cases "i = w") auto
qed

text \<open>What \<open>eval\<close> returns and what it changes.\<close>

lemma eval_result:
  assumes ev: "eval v st = Some (Inr (u, st'))"
    and inv: "forest_inv (semi st) (ancestor st) (label st)"
  shows "\<exists>anc lab. st' = st\<lparr>ancestor := anc, label := lab\<rparr>
     \<and> forest_inv (semi st) anc lab
     \<and> v < length (semi st) \<and> u \<le> v
     \<and> (u = v \<or> semi st ! u \<le> v)"
proof -
  have len: "length (ancestor st) = length (semi st)" "length (label st) = length (semi st)"
    using inv by (simp_all add: forest_inv_def)
  have v: "v < length (semi st)"
    using ev len by (auto simp: eval_def result_simps)
  show ?thesis
  proof (cases "ancestor st ! v = SIZE_MAX")
    case True
    with ev have "u = v" "st' = st"
      by (auto simp: eval_def result_simps)
    then have "st' = st\<lparr>ancestor := ancestor st, label := label st\<rparr>
       \<and> forest_inv (semi st) (ancestor st) (label st)
       \<and> v < length (semi st) \<and> u \<le> v \<and> (u = v \<or> semi st ! u \<le> v)"
      using inv v by simp
    then show ?thesis by blast
  next
    case False
    with ev have "\<exists>anc lab. compressPath (ancestor st) (label st) (semi st) v = Some (Inr (anc, lab))
        \<and> u = lab ! v \<and> st' = st\<lparr>ancestor := anc, label := lab\<rparr>"
      by (auto simp: eval_def result_simps split: prod.splits)
    then obtain anc lab where
      cp: "compressPath (ancestor st) (label st) (semi st) v = Some (Inr (anc, lab))"
      and u: "u = lab ! v" and st': "st' = st\<lparr>ancestor := anc, label := lab\<rparr>"
      by blast
    have inv': "forest_inv (semi st) anc lab"
      by (rule compressPath_forest_inv [OF cp inv])
    have "u \<le> v" "semi st ! u \<le> v"
      using forest_invD(2,3) [OF inv' v] u by simp_all
    with st' inv' v show ?thesis by blast
  qed
qed

lemma bucket_step_result:
  assumes bs: "bucket_step w v st = Some (Inr st')"
    and inv: "forest_inv (semi st) (ancestor st) (label st)"
  shows "\<exists>anc lab x. st' = st\<lparr>ancestor := anc, label := lab, idom := (idom st)[v := x]\<rparr>
     \<and> forest_inv (semi st) anc lab \<and> v < length (idom st) \<and> (x = w \<or> x < v)"
proof -
  from bs obtain u s where ev: "eval v st = Some (Inr (u, s))"
    and rest: "bnd (at (semi s) u) (\<lambda>su.
       bnd (at (semi s) v) (\<lambda>sv.
       bnd (put (idom s) v (if su < sv then u else w)) (\<lambda>i.
         ret (s\<lparr>idom := i\<rparr>)))) = Some (Inr st')"
    by (auto simp: bucket_step_def bnd_Inr)
  from eval_result [OF ev inv] obtain anc lab where
    s: "s = st\<lparr>ancestor := anc, label := lab\<rparr>" and inv': "forest_inv (semi st) anc lab"
    and uv: "u \<le> v" by blast
  define x where "x = (if semi st ! u < semi st ! v then u else w)"
  from rest have v: "v < length (idom st)" and st': "st' = s\<lparr>idom := (idom st)[v := x]\<rparr>"
    by (auto simp: result_simps s x_def)
  have "x = w \<or> x < v"
    using uv by (cases "u = v") (auto simp: x_def)
  with s st' inv' v show ?thesis by auto
qed

lemma bucket_pass_result:
  assumes "for_each b (bucket_step w) st = Some (Inr st')"
    and "forest_inv (semi st) (ancestor st) (label st)"
    and "\<forall>v\<in>set b. w < v \<or> v = 0"
  shows "\<exists>anc lab ido. st' = st\<lparr>ancestor := anc, label := lab, idom := ido\<rparr>
     \<and> forest_inv (semi st) anc lab \<and> length ido = length (idom st)
     \<and> (\<forall>v. 0 < v \<and> idom st ! v < v \<longrightarrow> ido ! v < v)
     \<and> (\<forall>v\<in>set b. 0 < v \<longrightarrow> ido ! v < v)"
  using assms
proof (induction b arbitrary: st)
  case Nil
  then have "st' = st\<lparr>ancestor := ancestor st, label := label st, idom := idom st\<rparr>"
    by (simp add: result_simps)
  with Nil.prems(2) show ?case by fastforce
next
  case (Cons v b)
  from Cons.prems(1) obtain s where step: "bucket_step w v st = Some (Inr s)"
    and rest: "for_each b (bucket_step w) s = Some (Inr st')"
    by (auto simp: bnd_Inr)
  from bucket_step_result [OF step Cons.prems(2)] obtain anc lab x where
    s: "s = st\<lparr>ancestor := anc, label := lab, idom := (idom st)[v := x]\<rparr>"
    and inv1: "forest_inv (semi st) anc lab" and v: "v < length (idom st)"
    and x: "x = w \<or> x < v" by blast
  have wv: "w < v \<or> v = 0" and b: "\<forall>v\<in>set b. w < v \<or> v = 0"
    using Cons.prems(3) by simp_all
  have inv1': "forest_inv (semi s) (ancestor s) (label s)"
    using inv1 by (simp add: s)
  from Cons.IH [OF rest inv1' b] obtain anc2 lab2 ido where
    st': "st' = s\<lparr>ancestor := anc2, label := lab2, idom := ido\<rparr>"
    and inv2: "forest_inv (semi s) anc2 lab2" and len: "length ido = length (idom s)"
    and keep: "\<forall>u. 0 < u \<and> idom s ! u < u \<longrightarrow> ido ! u < u"
    and new: "\<forall>u\<in>set b. 0 < u \<longrightarrow> ido ! u < u" by blast
  have xv: "0 < v \<Longrightarrow> idom s ! v < v"
    using x wv v by (auto simp: s)
  have old: "0 < u \<Longrightarrow> idom st ! u < u \<Longrightarrow> idom s ! u < u" for u
    using xv by (cases "u = v") (auto simp: s)
  have "st' = st\<lparr>ancestor := anc2, label := lab2, idom := ido\<rparr>"
    by (simp add: st' s)
  moreover have "forest_inv (semi st) anc2 lab2" using inv2 by (simp add: s)
  moreover have "length ido = length (idom st)" using len by (simp add: s)
  moreover have "\<forall>u. 0 < u \<and> idom st ! u < u \<longrightarrow> ido ! u < u"
    using keep old by blast
  moreover have "\<forall>u\<in>set (v # b). 0 < u \<longrightarrow> ido ! u < u"
    using new keep xv by auto
  ultimately show ?case by blast
qed

lemma semi_step_result:
  assumes ss: "semi_step w v st = Some (Inr st')"
    and inv: "forest_inv (semi st) (ancestor st) (label st)"
    and sv: "v < dfIdx st \<longrightarrow> semi st ! v \<le> v"
  shows "\<exists>anc lab x. st' = st\<lparr>ancestor := anc, label := lab, semi := (semi st)[w := x]\<rparr>
     \<and> forest_inv ((semi st)[w := x]) anc lab \<and> w < length (semi st)
     \<and> x \<le> semi st ! w \<and> (v < dfIdx st \<longrightarrow> x \<le> v)"
proof -
  from ss obtain u s where ev: "eval v st = Some (Inr (u, s))"
    and rest: "bnd (at (semi s) u) (\<lambda>su.
       bnd (at (semi s) w) (\<lambda>sw.
         if su < sw then bnd (put (semi s) w su) (\<lambda>sm. ret (s\<lparr>semi := sm\<rparr>))
         else ret s)) = Some (Inr st')"
    by (auto simp: semi_step_def bnd_Inr)
  from eval_result [OF ev inv] obtain anc lab where
    s: "s = st\<lparr>ancestor := anc, label := lab\<rparr>" and inv': "forest_inv (semi st) anc lab"
    and uv: "u = v \<or> semi st ! u \<le> v" by blast
  define x where "x = (if semi st ! u < semi st ! w then semi st ! u else semi st ! w)"
  from rest have w: "w < length (semi st)" and st': "st' = s\<lparr>semi := (semi st)[w := x]\<rparr>"
    by (auto simp: result_simps s x_def split: if_splits)
  have xle: "x \<le> semi st ! w" by (simp add: x_def)
  have su: "v < dfIdx st \<longrightarrow> semi st ! u \<le> v"
    using uv sv by auto
  have xv: "v < dfIdx st \<longrightarrow> x \<le> v"
    using su by (auto simp: x_def)
  have "forest_inv ((semi st)[w := x]) anc lab"
    by (rule forest_inv_semi_decrease [OF inv' w xle])
  with s st' w xle xv show ?thesis by auto
qed

lemma semi_pass_result:
  assumes "for_each ps (semi_step w) st = Some (Inr st')"
    and "forest_inv (semi st) (ancestor st) (label st)"
    and "\<forall>i<dfIdx st. semi st ! i \<le> i"
    and "w < length (semi st)"
  shows "\<exists>anc lab x. st' = st\<lparr>ancestor := anc, label := lab, semi := (semi st)[w := x]\<rparr>
     \<and> forest_inv ((semi st)[w := x]) anc lab
     \<and> x \<le> semi st ! w \<and> (\<forall>v\<in>set ps. v < dfIdx st \<longrightarrow> x \<le> v)"
  using assms
proof (induction ps arbitrary: st)
  case Nil
  then have "st' = st\<lparr>ancestor := ancestor st, label := label st, semi := (semi st)[w := semi st ! w]\<rparr>"
    by (simp add: result_simps)
  with Nil.prems(2) show ?case by fastforce
next
  case (Cons v ps)
  from Cons.prems(1) obtain s where step: "semi_step w v st = Some (Inr s)"
    and rest: "for_each ps (semi_step w) s = Some (Inr st')"
    by (auto simp: bnd_Inr)
  have sv: "v < dfIdx st \<longrightarrow> semi st ! v \<le> v" using Cons.prems(3) by simp
  from semi_step_result [OF step Cons.prems(2) sv] obtain anc lab x where
    s: "s = st\<lparr>ancestor := anc, label := lab, semi := (semi st)[w := x]\<rparr>"
    and inv1: "forest_inv ((semi st)[w := x]) anc lab" and w: "w < length (semi st)"
    and x: "x \<le> semi st ! w" and xv: "v < dfIdx st \<longrightarrow> x \<le> v" by blast
  have inv1': "forest_inv (semi s) (ancestor s) (label s)"
    using inv1 by (simp add: s)
  have semi1: "\<forall>i<dfIdx s. semi s ! i \<le> i"
  proof (intro allI impI)
    fix i assume "i < dfIdx s"
    then have "semi st ! i \<le> i" using Cons.prems(3) by (simp add: s)
    then show "semi s ! i \<le> i"
      using x w by (cases "i = w") (auto simp: s)
  qed
  have w1: "w < length (semi s)" using w by (simp add: s)
  from Cons.IH [OF rest inv1' semi1 w1] obtain anc2 lab2 y where
    st': "st' = s\<lparr>ancestor := anc2, label := lab2, semi := (semi s)[w := y]\<rparr>"
    and inv2: "forest_inv ((semi s)[w := y]) anc2 lab2"
    and y: "y \<le> semi s ! w" and yv: "\<forall>v\<in>set ps. v < dfIdx s \<longrightarrow> y \<le> v" by blast
  have yx: "y \<le> x" using y w by (simp add: s)
  have "st' = st\<lparr>ancestor := anc2, label := lab2, semi := (semi st)[w := y]\<rparr>"
    by (simp add: st' s)
  moreover have "forest_inv ((semi st)[w := y]) anc2 lab2" using inv2 by (simp add: s)
  moreover have "y \<le> semi st ! w" using yx x by simp
  moreover have "\<forall>u\<in>set (v # ps). u < dfIdx st \<longrightarrow> y \<le> u"
    using yv xv yx by (auto simp: s)
  ultimately show ?case by blast
qed

lemma process_index_result:
  assumes pi: "process_index w st = Some (Inr st')" and inv: "lt_inv st" and w: "w < dfIdx st"
  shows "lt_inv st' \<and> m_vertex st' = m_vertex st \<and> m_vertexIndex st' = m_vertexIndex st
     \<and> dfIdx st' = dfIdx st
     \<and> (\<forall>v. 0 < v \<and> idom st ! v < v \<longrightarrow> idom st' ! v < v)
     \<and> (\<forall>v\<in>set (bucket st ! w). 0 < v \<longrightarrow> idom st' ! v < v)
     \<and> (\<forall>j<length (m_vertex st). set (bucket st ! j) \<subseteq> set (bucket st' ! j))
     \<and> (0 < w \<longrightarrow> (\<exists>j<w. w \<in> set (bucket st' ! j)))"
proof -
  let ?n = "length (m_vertex st)"
  have len: "length (semi st) = ?n" "length (parent st) = ?n" "length (predecessors st) = ?n"
    "length (bucket st) = ?n" "length (idom st) = ?n"
    and r: "0 < dfIdx st" "dfIdx st \<le> ?n"
    and finv: "forest_inv (semi st) (ancestor st) (label st)"
    and sinv: "\<forall>i<dfIdx st. semi st ! i \<le> i"
    and pinv: "\<forall>i<?n. parent st ! i = SIZE_MAX \<or> parent st ! i < i"
    and tinv: "\<forall>i. 0 < i \<and> i < dfIdx st \<longrightarrow>
        parent st ! i < i \<and> parent st ! i \<in> set (predecessors st ! i)"
    and binv: "\<forall>j<?n. \<forall>v\<in>set (bucket st ! j). j < v \<or> v = 0"
    using inv by (simp_all add: lt_inv_def)
  have wn: "w < ?n" using w r by simp
  from pi obtain s1 where
    p1: "for_each (bucket st ! w) (bucket_step w) st = Some (Inr s1)"
    and r1: "bnd (at (predecessors s1) w) (\<lambda>ps.
      bnd (for_each ps (semi_step w) s1) (\<lambda>s2.
      bnd (at (semi s2) w) (\<lambda>sw.
      bnd (at (bucket s2) sw) (\<lambda>bs.
      bnd (put (bucket s2) sw (bs @ [w])) (\<lambda>bk.
      bnd (at (parent s2) w) (\<lambda>p.
        link p w (s2\<lparr>bucket := bk\<rparr>))))))) = Some (Inr st')"
    by (auto simp: process_index_def bnd_Inr at_Inr)
  have bw: "\<forall>v\<in>set (bucket st ! w). w < v \<or> v = 0"
    using binv wn by simp
  from bucket_pass_result [OF p1 finv bw] obtain a1 l1 ido where
    s1: "s1 = st\<lparr>ancestor := a1, label := l1, idom := ido\<rparr>"
    and finv1: "forest_inv (semi st) a1 l1" and lido: "length ido = length (idom st)"
    and keep: "\<forall>v. 0 < v \<and> idom st ! v < v \<longrightarrow> ido ! v < v"
    and new: "\<forall>v\<in>set (bucket st ! w). 0 < v \<longrightarrow> ido ! v < v" by blast
  from r1 obtain s2 where
    p2: "for_each (predecessors st ! w) (semi_step w) s1 = Some (Inr s2)"
    and r2: "bnd (at (semi s2) w) (\<lambda>sw.
      bnd (at (bucket s2) sw) (\<lambda>bs.
      bnd (put (bucket s2) sw (bs @ [w])) (\<lambda>bk.
      bnd (at (parent s2) w) (\<lambda>p.
        link p w (s2\<lparr>bucket := bk\<rparr>))))) = Some (Inr st')"
    by (auto simp: bnd_Inr at_Inr s1)
  have finv1': "forest_inv (semi s1) (ancestor s1) (label s1)"
    using finv1 by (simp add: s1)
  have sinv1: "\<forall>i<dfIdx s1. semi s1 ! i \<le> i" using sinv by (simp add: s1)
  have w1: "w < length (semi s1)" using wn len by (simp add: s1)
  from semi_pass_result [OF p2 finv1' sinv1 w1] obtain a2 l2 x where
    s2: "s2 = s1\<lparr>ancestor := a2, label := l2, semi := (semi s1)[w := x]\<rparr>"
    and finv2: "forest_inv ((semi s1)[w := x]) a2 l2"
    and x: "x \<le> semi s1 ! w"
    and xv: "\<forall>v\<in>set (predecessors st ! w). v < dfIdx s1 \<longrightarrow> x \<le> v" by blast
  define bk where "bk = (bucket st)[x := bucket st ! x @ [w]]"
  define p where "p = parent st ! w"
  from r2 have xn: "x < ?n"
    and st': "st' = s2\<lparr>bucket := bk, ancestor := a2[w := p]\<rparr>"
    using wn len by (auto simp: result_simps link_def s2 s1 bk_def p_def)
  have st'': "st' = st\<lparr>label := l2, idom := ido, semi := (semi st)[w := x],
      bucket := bk, ancestor := a2[w := p]\<rparr>"
    by (simp add: st' s2 s1)
  have xw: "x \<le> w" using x sinv w by (auto simp: s1)
  have xlt: "x < w" if "0 < w"
  proof -
    have "parent st ! w < w" "parent st ! w \<in> set (predecessors st ! w)"
      using tinv that w by simp_all
    moreover from this have "parent st ! w < dfIdx s1" using w by (simp add: s1)
    ultimately have "x \<le> parent st ! w" using xv by blast
    with \<open>parent st ! w < w\<close> show ?thesis by simp
  qed
  have pw: "p = SIZE_MAX \<or> p < w" using pinv wn by (simp add: p_def)
  have finv': "forest_inv ((semi st)[w := x]) (a2[w := p]) l2"
    using forest_inv_link [OF _ _ pw] finv2 wn len by (simp add: s1)
  have sinv': "\<forall>i<dfIdx st. (semi st)[w := x] ! i \<le> i"
  proof (intro allI impI)
    fix i assume "i < dfIdx st"
    then show "(semi st)[w := x] ! i \<le> i"
      using sinv xw wn len by (cases "i = w") auto
  qed
  have binv': "\<forall>j<?n. \<forall>v\<in>set (bk ! j). j < v \<or> v = 0"
  proof (intro allI impI ballI)
    fix j v assume j: "j < ?n" and v: "v \<in> set (bk ! j)"
    show "j < v \<or> v = 0"
    proof (cases "j = x")
      case True
      with v xn len have "v \<in> set (bucket st ! x) \<or> v = w" by (auto simp: bk_def)
      then show ?thesis using binv xn xlt True by auto
    next
      case False
      with v have "v \<in> set (bucket st ! j)" by (simp add: bk_def)
      then show ?thesis using binv j by blast
    qed
  qed
  have grow: "\<forall>j<?n. set (bucket st ! j) \<subseteq> set (bk ! j)"
  proof (intro allI impI)
    fix j assume "j < ?n"
    then show "set (bucket st ! j) \<subseteq> set (bk ! j)"
      using len by (cases "j = x") (auto simp: bk_def)
  qed
  have mem: "w \<in> set (bk ! x)" using xn len by (simp add: bk_def)
  have "lt_inv st'"
    unfolding lt_inv_def st''
    using len r finv' sinv' pinv tinv binv' lido by (simp add: bk_def)
  moreover have "\<forall>v. 0 < v \<and> idom st ! v < v \<longrightarrow> idom st' ! v < v"
    using keep by (simp add: st'')
  moreover have "\<forall>v\<in>set (bucket st ! w). 0 < v \<longrightarrow> idom st' ! v < v"
    using new by (simp add: st'')
  moreover have "\<forall>j<?n. set (bucket st ! j) \<subseteq> set (bucket st' ! j)"
    using grow by (simp add: st'')
  moreover have "0 < w \<longrightarrow> (\<exists>j<w. w \<in> set (bucket st' ! j))"
    using xlt mem by (auto simp: st'')
  ultimately show ?thesis by (simp add: st'')
qed

lemma index_inv_subscript:
  assumes "index_inv m vs r" "0 < r"
  shows "index_inv (snd (subscript m x)) vs r" "fst (subscript m x) < r"
    "i < r \<Longrightarrow> x = vs ! i \<Longrightarrow> fst (subscript m x) = i"
    "m v = Some j \<Longrightarrow> snd (subscript m x) v = Some j"
  using assms
  by (auto simp: index_inv_def snd_subscript fst_subscript inserted_def split: option.splits)

lemma process_vertex_result:
  assumes pv: "process_vertex x st = Some (Inr st')" and inv: "lt_inv st"
    and ix: "index_inv (m_vertexIndex st) (m_vertex st) (dfIdx st)"
  shows "lt_inv st' \<and> index_inv (m_vertexIndex st') (m_vertex st') (dfIdx st')
     \<and> m_vertex st' = m_vertex st \<and> dfIdx st' = dfIdx st
     \<and> (\<forall>v j. m_vertexIndex st v = Some j \<longrightarrow> m_vertexIndex st' v = Some j)
     \<and> (\<forall>v. 0 < v \<and> idom st ! v < v \<longrightarrow> idom st' ! v < v)
     \<and> (\<forall>j<length (m_vertex st). set (bucket st ! j) \<subseteq> set (bucket st' ! j))
     \<and> (\<forall>i<dfIdx st. x = m_vertex st ! i \<longrightarrow>
          (\<forall>v\<in>set (bucket st ! i). 0 < v \<longrightarrow> idom st' ! v < v)
          \<and> (0 < i \<longrightarrow> (\<exists>j<i. i \<in> set (bucket st' ! j))))"
proof -
  define w where "w = fst (subscript (m_vertexIndex st) x)"
  define s where "s = st\<lparr>m_vertexIndex := snd (subscript (m_vertexIndex st) x)\<rparr>"
  have r: "0 < dfIdx st" using inv by (simp add: lt_inv_def)
  have pi: "process_index w s = Some (Inr st')"
    using pv by (simp add: process_vertex_def w_def s_def)
  have invs: "lt_inv s" using inv by (simp add: lt_inv_def s_def)
  have w: "w < dfIdx s"
    using index_inv_subscript(2) [OF ix r] by (simp add: w_def s_def)
  have ixs: "index_inv (m_vertexIndex s) (m_vertex s) (dfIdx s)"
    using index_inv_subscript(1) [OF ix r] by (simp add: s_def)
  have weq: "i < dfIdx st \<Longrightarrow> x = m_vertex st ! i \<Longrightarrow> w = i" for i
    using index_inv_subscript(3) [OF ix r] by (simp add: w_def)
  have known: "m_vertexIndex st v = Some j \<Longrightarrow> m_vertexIndex s v = Some j" for v j
    using index_inv_subscript(4) [OF ix r] by (simp add: s_def)
  note res = process_index_result [OF pi invs w]
  have "lt_inv st'" using res by blast
  moreover have "index_inv (m_vertexIndex st') (m_vertex st') (dfIdx st')"
    using res ixs by simp
  moreover have "m_vertex st' = m_vertex st" "dfIdx st' = dfIdx st"
    using res by (simp_all add: s_def)
  moreover have "\<forall>v j. m_vertexIndex st v = Some j \<longrightarrow> m_vertexIndex st' v = Some j"
    using res known by simp
  moreover have "\<forall>v. 0 < v \<and> idom st ! v < v \<longrightarrow> idom st' ! v < v"
    using res by (simp add: s_def)
  moreover have "\<forall>j<length (m_vertex st). set (bucket st ! j) \<subseteq> set (bucket st' ! j)"
    using res by (simp add: s_def)
  moreover have "\<forall>i<dfIdx st. x = m_vertex st ! i \<longrightarrow>
          (\<forall>v\<in>set (bucket st ! i). 0 < v \<longrightarrow> idom st' ! v < v)
          \<and> (0 < i \<longrightarrow> (\<exists>j<i. i \<in> set (bucket st' ! j)))"
  proof (intro allI impI)
    fix i assume "i < dfIdx st" "x = m_vertex st ! i"
    then have "w = i" by (rule weq)
    with res show "(\<forall>v\<in>set (bucket st ! i). 0 < v \<longrightarrow> idom st' ! v < v)
          \<and> (0 < i \<longrightarrow> (\<exists>j<i. i \<in> set (bucket st' ! j)))"
      by (simp add: s_def)
  qed
  ultimately show ?thesis by blast
qed

lemma reverse_pass_prefix:
  assumes "for_each (rev (take k (m_vertex st))) process_vertex st = Some (Inr st')"
    and "lt_inv st" and "index_inv (m_vertexIndex st) (m_vertex st) (dfIdx st)"
    and "progress k st" and "k \<le> length (m_vertex st)"
  shows "lt_inv st' \<and> index_inv (m_vertexIndex st') (m_vertex st') (dfIdx st')
     \<and> m_vertex st' = m_vertex st \<and> dfIdx st' = dfIdx st
     \<and> (\<forall>v j. m_vertexIndex st v = Some j \<longrightarrow> m_vertexIndex st' v = Some j)
     \<and> progress 0 st'"
  using assms
proof (induction k arbitrary: st)
  case 0
  then show ?case by (simp add: ret_Inr)
next
  case (Suc k)
  let ?vs = "m_vertex st"
  have k: "k < length ?vs" using Suc.prems(5) by simp
  have "rev (take (Suc k) ?vs) = ?vs ! k # rev (take k ?vs)"
    using k by (simp add: take_Suc_conv_app_nth)
  with Suc.prems(1) obtain s where
    pv: "process_vertex (?vs ! k) st = Some (Inr s)"
    and rest: "for_each (rev (take k ?vs)) process_vertex s = Some (Inr st')"
    by (auto simp: bnd_Inr)
  note res = process_vertex_result [OF pv Suc.prems(2,3)]
  have same: "m_vertex s = ?vs" "dfIdx s = dfIdx st" using res by simp_all
  have prog: "progress k s"
    unfolding progress_def
  proof (intro allI impI)
    fix v assume v: "k \<le> v \<and> 0 < v \<and> v < dfIdx s"
    show "idom s ! v < v \<or> (\<exists>j<k. v \<in> set (bucket s ! j))"
    proof (cases "v = k")
      case True
      from res have "\<forall>i<dfIdx st. ?vs ! k = ?vs ! i \<longrightarrow>
          (\<forall>v\<in>set (bucket st ! i). 0 < v \<longrightarrow> idom s ! v < v)
          \<and> (0 < i \<longrightarrow> (\<exists>j<i. i \<in> set (bucket s ! j)))" by blast
      moreover have "k < dfIdx st" "0 < k" using v True by (simp_all add: same)
      ultimately have "\<exists>j<k. k \<in> set (bucket s ! j)" by blast
      with True show ?thesis by blast
    next
      case False
      with v have "Suc k \<le> v \<and> 0 < v \<and> v < dfIdx st" by (simp add: same)
      with Suc.prems(4) consider "idom st ! v < v" | j where "j < Suc k" "v \<in> set (bucket st ! j)"
        unfolding progress_def by blast
      then show ?thesis
      proof cases
        case 1
        with v res show ?thesis by blast
      next
        case 2
        show ?thesis
        proof (cases "j = k")
          case True
          have kr: "k < dfIdx st" using v by (simp add: same)
          from res have "\<forall>i<dfIdx st. ?vs ! k = ?vs ! i \<longrightarrow>
              (\<forall>v\<in>set (bucket st ! i). 0 < v \<longrightarrow> idom s ! v < v)
              \<and> (0 < i \<longrightarrow> (\<exists>j<i. i \<in> set (bucket s ! j)))" by blast
          with kr have "\<forall>v\<in>set (bucket st ! k). 0 < v \<longrightarrow> idom s ! v < v" by blast
          with 2 True v have "idom s ! v < v" by blast
          then show ?thesis by simp
        next
          case False
          with 2 have jk: "j < k" by simp
          with k have "j < length ?vs" by simp
          with res 2 have "v \<in> set (bucket s ! j)" by blast
          with jk show ?thesis by blast
        qed
      qed
    qed
  qed
  have rest': "for_each (rev (take k (m_vertex s))) process_vertex s = Some (Inr st')"
    using rest by (simp add: same)
  have invs: "lt_inv s" and ixs: "index_inv (m_vertexIndex s) (m_vertex s) (dfIdx s)"
    using res by blast+
  have kle: "k \<le> length (m_vertex s)" using k same by simp
  note ih = Suc.IH [OF rest' invs ixs prog kle]
  have "\<forall>v j. m_vertexIndex st v = Some j \<longrightarrow> m_vertexIndex st' v = Some j"
    using ih res by blast
  with ih same show ?case by auto
qed

lemma reverse_pass_result:
  assumes rp: "reverse_pass st = Some (Inr st')"
    and inv: "lt_inv st" and ix: "index_inv (m_vertexIndex st) (m_vertex st) (dfIdx st)"
  shows "length (idom st') = length (m_vertex st) \<and> length (semi st') = length (m_vertex st)
     \<and> index_inv (m_vertexIndex st') (m_vertex st') (dfIdx st')
     \<and> m_vertex st' = m_vertex st \<and> dfIdx st' = dfIdx st
     \<and> (\<forall>v j. m_vertexIndex st v = Some j \<longrightarrow> m_vertexIndex st' v = Some j)
     \<and> (\<forall>v. 0 < v \<and> v < dfIdx st \<longrightarrow> idom st' ! v < v)"
proof -
  have p: "progress (length (m_vertex st)) st"
    using inv by (auto simp: progress_def lt_inv_def)
  have "for_each (rev (take (length (m_vertex st)) (m_vertex st))) process_vertex st = Some (Inr st')"
    using rp by (simp add: reverse_pass_def)
  from reverse_pass_prefix [OF this inv ix p]
  show ?thesis by (auto simp: progress_def lt_inv_def)
qed

lemma for_each_invariant:
  assumes "for_each xs f s = Some (Inr s')" and "I s"
    and "\<And>x s s'. I s \<Longrightarrow> f x s = Some (Inr s') \<Longrightarrow> I s'"
  shows "I s'"
  using assms(1,2)
proof (induction xs arbitrary: s)
  case Nil
  then show ?case by (simp add: ret_Inr)
next
  case (Cons x xs)
  from Cons.prems(1) obtain s1 where "f x s = Some (Inr s1)" "for_each xs f s1 = Some (Inr s')"
    by (auto simp: bnd_Inr)
  with Cons.IH assms(3) [OF Cons.prems(2)] show ?case by blast
qed

lemma fixup_index_result:
  assumes fi: "fixup_index w st = Some (Inr st')" and ok: "idom_ok r (idom st)" and w: "w < r"
  shows "\<exists>ido. st' = st\<lparr>idom := ido\<rparr> \<and> length ido = length (idom st) \<and> idom_ok r ido"
proof (cases "idom st ! w = semi st ! w")
  case True
  with fi have "st' = st\<lparr>idom := idom st\<rparr>" by (auto simp: fixup_index_def result_simps)
  with ok show ?thesis by blast
next
  case False
  define x where "x = idom st ! (idom st ! w)"
  from False fi have st': "st' = st\<lparr>idom := (idom st)[w := x]\<rparr>" and wl: "w < length (idom st)"
    by (auto simp: fixup_index_def result_simps x_def)
  have x: "x = 0 \<or> (0 < w \<and> x < w)"
  proof (cases "w = 0")
    case True
    with ok show ?thesis by (simp add: x_def idom_ok_def)
  next
    case False
    with ok w have j: "idom st ! w < w" by (simp add: idom_ok_def)
    show ?thesis
    proof (cases "idom st ! w = 0")
      case True
      with ok show ?thesis by (simp add: x_def idom_ok_def)
    next
      case False
      with j w ok have "x < idom st ! w" by (simp add: x_def idom_ok_def)
      with j show ?thesis by simp
    qed
  qed
  have "idom_ok r ((idom st)[w := x])"
    unfolding idom_ok_def
  proof (intro conjI allI impI)
    show "(idom st)[w := x] ! 0 = 0"
      using ok x wl by (cases "w = 0") (auto simp: idom_ok_def)
  next
    fix v assume v: "0 < v \<and> v < r"
    with ok have "idom st ! v < v" by (simp add: idom_ok_def)
    then show "(idom st)[w := x] ! v < v"
      using x wl v by (cases "v = w") auto
  qed
  with st' show ?thesis by auto
qed

lemma fixup_vertex_result:
  assumes fv: "fixup_vertex x st = Some (Inr st')"
    and ix: "index_inv (m_vertexIndex st) vs r" and r: "0 < r"
    and ok: "idom_ok r (idom st)"
  shows "\<exists>ido. st' = st\<lparr>m_vertexIndex := snd (subscript (m_vertexIndex st) x), idom := ido\<rparr>
     \<and> length ido = length (idom st) \<and> idom_ok r ido"
proof -
  define s where "s = st\<lparr>m_vertexIndex := snd (subscript (m_vertexIndex st) x)\<rparr>"
  have fi: "fixup_index (fst (subscript (m_vertexIndex st) x)) s = Some (Inr st')"
    using fv by (simp add: fixup_vertex_def s_def)
  have ok': "idom_ok r (idom s)" using ok by (simp add: s_def)
  from fixup_index_result [OF fi ok' index_inv_subscript(2) [OF ix r]]
  show ?thesis by (simp add: s_def)
qed

lemma fixup_vertex_inv:
  assumes "fixup_inv st0 st" "0 < dfIdx st0" "fixup_vertex x st = Some (Inr st')"
  shows "fixup_inv st0 st'"
proof -
  have ix: "index_inv (m_vertexIndex st) (m_vertex st0) (dfIdx st0)"
    and ok: "idom_ok (dfIdx st0) (idom st)"
    using assms(1) by (simp_all add: fixup_inv_def)
  from fixup_vertex_result [OF assms(3) ix assms(2) ok] obtain ido where
    st': "st' = st\<lparr>m_vertexIndex := snd (subscript (m_vertexIndex st) x), idom := ido\<rparr>"
    and len: "length ido = length (idom st)" and ok': "idom_ok (dfIdx st0) ido" by blast
  show ?thesis
    unfolding fixup_inv_def st'
    using assms(1) len ok' index_inv_subscript(1,4) [OF ix assms(2)]
    by (simp add: fixup_inv_def)
qed

lemma fixup_pass_result:
  assumes fp: "fixup_pass st = Some (Inr st')"
    and ix: "index_inv (m_vertexIndex st) (m_vertex st) (dfIdx st)" and r: "0 < dfIdx st"
    and ido: "\<forall>v. 0 < v \<and> v < dfIdx st \<longrightarrow> idom st ! v < v"
  shows "fixup_inv st st'"
proof -
  define s where "s = st\<lparr>idom := (idom st)[0 := 0]\<rparr>"
  from fp have l: "0 < length (idom st)"
    and fe: "for_each (tl (m_vertex st)) fixup_vertex s = Some (Inr st')"
    by (auto simp: fixup_pass_def result_simps s_def)
  have "idom_ok (dfIdx st) ((idom st)[0 := 0])"
    using ido l by (simp add: idom_ok_def)
  then have start: "fixup_inv st s"
    using ix by (simp add: fixup_inv_def s_def)
  show ?thesis
    by (rule for_each_invariant [OF fe, where I = "fixup_inv st", OF start])
      (rule fixup_vertex_inv [OF _ r])
qed

lemma for_each_prefix_invariant:
  assumes fe: "for_each xs f s = Some (Inr s')" and start: "I [] s"
    and step: "\<And>ys x s s'. x \<in> set xs \<Longrightarrow> I ys s \<Longrightarrow> f x s = Some (Inr s') \<Longrightarrow> I (ys @ [x]) s'"
  shows "I xs s'"
proof -
  have "for_each zs f s = Some (Inr s') \<Longrightarrow> I ys s \<Longrightarrow> set zs \<subseteq> set xs \<Longrightarrow> I (ys @ zs) s'"
    for zs ys s
  proof (induction zs arbitrary: ys s)
    case Nil
    then show ?case by (simp add: ret_Inr)
  next
    case (Cons z zs)
    from Cons.prems(1) obtain s1 where z: "f z s = Some (Inr s1)"
      and zs: "for_each zs f s1 = Some (Inr s')"
      by (auto simp: bnd_Inr)
    have "I (ys @ [z]) s1"
      using step [OF _ Cons.prems(2) z] Cons.prems(3) by simp
    from Cons.IH [OF zs this] Cons.prems(3) show ?case by simp
  qed
  from this [OF fe start] show ?thesis by simp
qed

lemma dfs_ext_refl: "dfs_ext a a"
  by (simp add: dfs_ext_def)

lemma dfs_ext_trans: "dfs_ext a b \<Longrightarrow> dfs_ext b c \<Longrightarrow> dfs_ext a c"
  unfolding dfs_ext_def by (intro conjI; (elim conjE)?; force)

lemma dfs_enter_result:
  assumes en: "dfs_enter v st = Some (Inr s0)" and pre: "dfs_pre succs entry v st"
    and nv: "v \<notin> visited st"
  shows "dfs_inv succs entry s0" "dfs_ext st s0" "dfIdx s0 = Suc (dfIdx st)"
    "visited s0 = insert v (visited st)" "m_vertexIndex s0 v = Some (dfIdx st)"
    "parent s0 = parent st" "predecessors s0 = predecessors st"
    "dfIdx st < length (m_vertex st)"
proof -
  let ?k = "dfIdx st"
  have inv: "dfs_inv succs entry st" using pre by (simp add: dfs_pre_def)
  from en have k: "?k < length (m_vertex st)"
    and s0: "s0 = st\<lparr>visited := insert v (visited st),
               m_vertex := (m_vertex st)[?k := v],
               m_vertexIndex := (m_vertexIndex st)(v \<mapsto> ?k),
               semi := (semi st)[?k := ?k],
               label := (label st)[?k := ?k],
               dfIdx := ?k + 1\<rparr>"
    by (auto simp: dfs_enter_def result_simps)
  show "dfIdx s0 = Suc ?k" "visited s0 = insert v (visited st)" "m_vertexIndex s0 v = Some ?k"
    "parent s0 = parent st" "predecessors s0 = predecessors st" "?k < length (m_vertex st)"
    using k by (simp_all add: s0)
  have noidx: "m_vertexIndex st v = None"
    using inv nv unfolding dfs_inv_def by (cases "m_vertexIndex st v") auto
  have notin: "i < ?k \<Longrightarrow> m_vertex st ! i \<noteq> v" for i
    using inv noidx unfolding dfs_inv_def by auto
  show "dfs_ext st s0"
    using nv unfolding dfs_ext_def s0 by auto
  show "dfs_inv succs entry s0"
    unfolding dfs_inv_def
  proof (intro conjI)
    show "length (semi s0) = length (m_vertex s0)" "length (parent s0) = length (m_vertex s0)"
      "length (label s0) = length (m_vertex s0)"
      "length (predecessors s0) = length (m_vertex s0)"
      "dfIdx s0 \<le> length (m_vertex s0)"
      using inv k unfolding dfs_inv_def by (simp_all add: s0)
    show "\<forall>u i. m_vertexIndex s0 u = Some i \<longrightarrow> i < dfIdx s0 \<and> u \<in> visited s0"
      using inv unfolding dfs_inv_def by (auto simp: s0 less_Suc_eq)
    show "\<forall>u. u \<in> visited s0 \<longrightarrow> m_vertexIndex s0 u \<noteq> None"
      using inv unfolding dfs_inv_def by (auto simp: s0)
    show "\<forall>i<dfIdx s0. m_vertexIndex s0 (m_vertex s0 ! i) = Some i"
    proof (intro allI impI)
      fix i assume "i < dfIdx s0"
      then have "i = ?k \<or> i < ?k" by (auto simp: s0)
      then consider "i = ?k" | "i < ?k" by blast
      then show "m_vertexIndex s0 (m_vertex s0 ! i) = Some i"
      proof cases
        case 1
        then show ?thesis using k by (simp add: s0)
      next
        case 2
        moreover have "m_vertexIndex st (m_vertex st ! i) = Some i"
          using inv 2 unfolding dfs_inv_def by blast
        ultimately show ?thesis using notin [of i] by (simp add: s0)
      qed
    qed
    show "\<forall>i<dfIdx s0. semi s0 ! i = i \<and> label s0 ! i = i"
      using inv k unfolding dfs_inv_def by (auto simp: s0 less_Suc_eq nth_list_update)
    show "\<forall>i. dfIdx s0 \<le> i \<and> i < length (m_vertex s0) \<longrightarrow>
        semi s0 ! i = SIZE_MAX \<and> label s0 ! i = 0"
      using inv k unfolding dfs_inv_def by (auto simp: s0)
    show "\<forall>i<length (m_vertex s0). parent s0 ! i = SIZE_MAX \<or> parent s0 ! i < i"
      using inv unfolding dfs_inv_def by (simp add: s0)
    show "\<forall>i. 0 < i \<and> i < dfIdx s0 \<longrightarrow> parent s0 ! i < i"
    proof (intro allI impI)
      fix i assume i: "0 < i \<and> i < dfIdx s0"
      then have "i = ?k \<or> i < ?k" by (auto simp: s0)
      then consider "i = ?k" | "i < ?k" by blast
      then show "parent s0 ! i < i"
      proof cases
        case 1
        with i k pre show ?thesis by (simp add: dfs_pre_def s0)
      next
        case 2
        with i inv show ?thesis unfolding dfs_inv_def by (simp add: s0)
      qed
    qed
    show "finite (visited s0)" "card (visited s0) = dfIdx s0"
      using inv nv unfolding dfs_inv_def by (simp_all add: s0)
    show "\<forall>u. u \<in> visited s0 \<longrightarrow> reachable succs entry u"
      using inv pre unfolding dfs_inv_def dfs_pre_def by (auto simp: s0)
    show "0 < dfIdx s0 \<longrightarrow> m_vertex s0 ! 0 = entry"
    proof (cases "?k = 0")
      case True
      with pre k show ?thesis by (simp add: dfs_pre_def s0)
    next
      case False
      with inv show ?thesis unfolding dfs_inv_def by (simp add: s0)
    qed
  qed
qed

lemma dfs_inv_set_parent:
  assumes "dfs_inv succs entry s" "dfIdx s < length (m_vertex s)" "iv < dfIdx s"
  shows "dfs_inv succs entry (s\<lparr>parent := (parent s)[dfIdx s := iv]\<rparr>)"
  using assms unfolding dfs_inv_def
  by (auto simp: nth_list_update)

lemma dfs_inv_set_predecessors:
  assumes "dfs_inv succs entry s"
  shows "dfs_inv succs entry (s\<lparr>predecessors := (predecessors s)[i := x]\<rparr>)"
  using assms unfolding dfs_inv_def by simp

lemma subscript_known: "m k = Some i \<Longrightarrow> subscript m k = (i, m)"
  by (simp add: subscript_def)

lemma explored_trans:
  assumes "explored succs a b" "explored succs b c" "visited b \<subseteq> visited c"
  shows "explored succs a c"
  using assms unfolding explored_def by blast

lemma dfs_successor_step:
  assumes ih: "\<And>w s r. f w s = Some r \<Longrightarrow>
      (\<forall>s'. r = Inr s' \<longrightarrow> dfs_pre succs entry w s \<longrightarrow> dfs_post succs entry w s s')"
    and J: "dfs_loop_inv succs entry s0 ys s"
    and v0: "v \<in> visited s0" and w: "w \<in> set (succs v)"
    and cb: "dfs_successor f v w s = Some (Inr s2)"
  shows "dfs_loop_inv succs entry s0 (ys @ [w]) s2"
proof -
  let ?k = "dfIdx s"
  let ?n = "length (m_vertex s)"
  have inv: "dfs_inv succs entry s" and ext: "dfs_ext s0 s"
    and te: "tree_edges (dfIdx s0) s" and ex: "explored succs s0 s"
    and ys: "\<forall>w. w \<in> set ys \<longrightarrow> w \<in> visited s"
    using J by (simp_all add: dfs_loop_inv_def)
  have len: "length (semi s) = ?n" "length (parent s) = ?n" "length (predecessors s) = ?n"
    using inv by (simp_all add: dfs_inv_def)
  have vs: "v \<in> visited s" using ext v0 by (auto simp: dfs_ext_def)
  then obtain iv where iv: "m_vertexIndex s v = Some iv" and ivk: "iv < ?k"
    using inv unfolding dfs_inv_def by (cases "m_vertexIndex s v") auto
  from cb have k: "?k < ?n" using len by (auto simp: dfs_successor_def result_simps)
  have unvisited: "semi s ! ?k = SIZE_MAX" using inv k unfolding dfs_inv_def by simp
  define sa where "sa = s\<lparr>parent := (parent s)[?k := iv]\<rparr>"
  have sub_v: "subscript (m_vertexIndex s) v = (iv, m_vertexIndex s)"
    by (rule subscript_known) (rule iv)
  from cb obtain s1 where rec: "f w sa = Some (Inr s1)"
    and after: "bnd (at (predecessors s1) (fst (subscript (m_vertexIndex s1) w))) (\<lambda>ps.
       bnd (put (predecessors s1) (fst (subscript (m_vertexIndex s1) w))
              (insort_insert
                 (fst (subscript (snd (subscript (m_vertexIndex s1) w)) v)) ps)) (\<lambda>preds.
         ret (s1\<lparr>m_vertexIndex := snd (subscript (snd (subscript (m_vertexIndex s1) w)) v),
                 predecessors := preds\<rparr>))) = Some (Inr s2)"
    using k len unvisited by (auto simp: dfs_successor_def result_simps sub_v sa_def)
  have inva: "dfs_inv succs entry sa"
    unfolding sa_def by (rule dfs_inv_set_parent [OF inv k ivk])
  have "\<forall>u. u \<in> visited s \<longrightarrow> reachable succs entry u"
    using inv by (simp add: dfs_inv_def)
  with vs have "reachable succs entry v" by blast
  then have reach_w: "reachable succs entry w"
    using w by (rule reachable_step)
  have prea: "dfs_pre succs entry w sa"
    unfolding dfs_pre_def using inva reach_w ivk k len by (simp add: sa_def)
  have post: "dfs_post succs entry w sa s1"
    using ih [OF rec] prea by blast
  have inv1: "dfs_inv succs entry s1" and ext1: "dfs_ext sa s1" and w1: "w \<in> visited s1"
    and par1: "parent s1 ! ?k = iv"
    and old1: "w \<in> visited s \<longrightarrow> dfIdx s1 = ?k"
    and new1: "w \<notin> visited s \<longrightarrow> m_vertexIndex s1 w = Some ?k"
    and te1: "tree_edges (Suc ?k) s1" and ex1: "explored succs sa s1"
    using post k len by (simp_all add: dfs_post_def sa_def)
  have exta: "dfs_ext s sa" by (simp add: dfs_ext_def sa_def)
  have ext01: "dfs_ext s0 s1"
    by (rule dfs_ext_trans [OF ext dfs_ext_trans [OF exta ext1]])
  have n1: "length (m_vertex s1) = ?n" "length (predecessors s1) = ?n"
    using ext1 inv1 by (simp_all add: dfs_ext_def dfs_inv_def sa_def)
  have iv1: "m_vertexIndex s1 v = Some iv"
    using ext1 vs iv by (simp add: dfs_ext_def sa_def)
  obtain iw where iw: "m_vertexIndex s1 w = Some iw" and iwk: "iw < dfIdx s1"
    using inv1 w1 unfolding dfs_inv_def by (cases "m_vertexIndex s1 w") auto
  have iwn: "iw < ?n" using iwk inv1 n1 by (simp add: dfs_inv_def)
  define preds where
    "preds = (predecessors s1)[iw := insort_insert iv (predecessors s1 ! iw)]"
  have s2: "s2 = s1\<lparr>predecessors := preds\<rparr>"
    using after iwn n1
    by (simp add: result_simps subscript_known [where m = "m_vertexIndex s1", OF iw]
        subscript_known [where m = "m_vertexIndex s1", OF iv1] preds_def)
  have inv2: "dfs_inv succs entry s2"
    unfolding s2 preds_def by (rule dfs_inv_set_predecessors [OF inv1])
  have grow: "set (predecessors s1 ! i) \<subseteq> set (preds ! i)" for i
    using iwn n1 by (cases "i = iw") (auto simp: preds_def set_insort_insert)
  have ext12: "dfs_ext s1 s2"
    using grow by (simp add: dfs_ext_def s2)
  have ext02: "dfs_ext s0 s2"
    by (rule dfs_ext_trans [OF ext01 ext12])
  have te2: "tree_edges (dfIdx s0) s2"
    unfolding tree_edges_def
  proof (intro allI impI)
    fix i assume i: "dfIdx s0 \<le> i \<and> i < dfIdx s2"
    then have i1: "i < dfIdx s1" by (simp add: s2)
    consider "i < ?k" | "i = ?k" | "?k < i" by linarith
    then have "parent s1 ! i \<in> set (preds ! i)"
    proof cases
      case 1
      with te i have "parent s ! i \<in> set (predecessors s ! i)" by (simp add: tree_edges_def)
      moreover have "parent s1 ! i = parent s ! i"
        using 1 ext1 by (simp add: dfs_ext_def sa_def)
      moreover have "set (predecessors s ! i) \<subseteq> set (predecessors s1 ! i)"
        using 1 k ext1 by (simp add: dfs_ext_def sa_def)
      ultimately show ?thesis using grow [of i] by auto
    next
      case 2
      with i1 old1 have "w \<notin> visited s" by auto
      with new1 iw have "iw = ?k" by simp
      with 2 par1 iwn n1 show ?thesis by (simp add: preds_def set_insort_insert)
    next
      case 3
      with te1 i1 have "parent s1 ! i \<in> set (predecessors s1 ! i)" by (simp add: tree_edges_def)
      with grow [of i] show ?thesis by auto
    qed
    then show "parent s2 ! i \<in> set (predecessors s2 ! i)" by (simp add: s2)
  qed
  have vis: "visited s \<subseteq> visited s1" using ext1 by (simp add: dfs_ext_def sa_def)
  have "explored succs s s1" using ex1 by (simp add: explored_def sa_def)
  from explored_trans [OF ex this vis] have ex2: "explored succs s0 s2"
    by (simp add: explored_def s2)
  have "\<forall>u. u \<in> set (ys @ [w]) \<longrightarrow> u \<in> visited s2"
    using ys vis w1 by (auto simp: s2)
  with inv2 ext02 te2 ex2 show ?thesis by (simp add: dfs_loop_inv_def)
qed

lemma tree_edges_none: "dfIdx b \<le> lo \<Longrightarrow> tree_edges lo b"
  by (auto simp: tree_edges_def)

lemma dfs_post_visited:
  assumes "dfs_inv succs entry st" "v \<in> visited st"
  shows "dfs_post succs entry v st st"
  using assms by (simp add: dfs_post_def dfs_ext_refl tree_edges_none explored_def)

lemma dfs_post_enter:
  assumes pre: "dfs_pre succs entry v st" and nv: "v \<notin> visited st"
    and en: "dfs_enter v st = Some (Inr s0)"
    and J: "dfs_loop_inv succs entry s0 (succs v) st'"
  shows "dfs_post succs entry v st st'"
proof -
  note e = dfs_enter_result [OF en pre nv]
  have inv': "dfs_inv succs entry st'" and ext: "dfs_ext s0 st'"
    and te: "tree_edges (dfIdx s0) st'" and ex: "explored succs s0 st'"
    and sv: "\<forall>w. w \<in> set (succs v) \<longrightarrow> w \<in> visited st'"
    using J by (simp_all add: dfs_loop_inv_def)
  have v0: "v \<in> visited s0" using e(4) by simp
  have v': "v \<in> visited st'" using ext v0 by (auto simp: dfs_ext_def)
  have ext': "dfs_ext st st'" by (rule dfs_ext_trans [OF e(2) ext])
  have "parent st' ! dfIdx st = parent s0 ! dfIdx st"
    using ext e(3) by (simp add: dfs_ext_def)
  then have par: "parent st' ! dfIdx st = parent st ! dfIdx st" by (simp add: e(6))
  have "m_vertexIndex st' v = m_vertexIndex s0 v"
    using ext v0 by (simp add: dfs_ext_def)
  then have idx: "m_vertexIndex st' v = Some (dfIdx st)" by (simp add: e(5))
  have te': "tree_edges (Suc (dfIdx st)) st'" using te by (simp add: e(3))
  have ex': "explored succs st st'"
    unfolding explored_def
  proof (intro allI impI)
    fix u w assume u: "u \<in> visited st' \<and> u \<notin> visited st" and w: "w \<in> set (succs u)"
    show "w \<in> visited st'"
    proof (cases "u = v")
      case True
      with sv w show ?thesis by blast
    next
      case False
      with u have "u \<notin> visited s0" by (simp add: e(4))
      with ex u w show ?thesis unfolding explored_def by blast
    qed
  qed
  show ?thesis
    unfolding dfs_post_def using inv' ext' v' par nv idx te' ex' by simp
qed

lemma dfs_correct_aux:
  assumes "dfs succs v st = Some r"
  shows "\<forall>st'. r = Inr st' \<longrightarrow> dfs_pre succs entry v st \<longrightarrow> dfs_post succs entry v st st'"
  using assms
proof (induction rule: dfs.raw_induct [rotated 1, consumes 1])
  case (1 f succs v st r)
  show ?case
  proof (intro allI impI)
    fix st' assume r: "r = Inr st'" and pre: "dfs_pre succs entry v st"
    have inv: "dfs_inv succs entry st" using pre by (simp add: dfs_pre_def)
    show "dfs_post succs entry v st st'"
    proof (cases "v \<in> visited st")
      case True
      with 1(2) r have "st' = st" by (simp add: ret_def)
      with True inv show ?thesis by (simp add: dfs_post_visited)
    next
      case False
      with 1(2) r obtain s0 where en: "dfs_enter v st = Some (Inr s0)"
        and fe: "for_each (succs v) (dfs_successor (f succs) v) s0 = Some (Inr st')"
        by (auto simp: bnd_Inr)
      note e = dfs_enter_result [OF en pre False]
      have start: "dfs_loop_inv succs entry s0 [] s0"
        using e(1) by (simp add: dfs_loop_inv_def dfs_ext_refl tree_edges_none explored_def)
      have v0: "v \<in> visited s0" using e(4) by simp
      have "dfs_loop_inv succs entry s0 (succs v) st'"
      proof (rule for_each_prefix_invariant [OF fe, where I = "dfs_loop_inv succs entry s0", OF start])
        fix ys x s s'
        assume "x \<in> set (succs v)" "dfs_loop_inv succs entry s0 ys s"
          "dfs_successor (f succs) v x s = Some (Inr s')"
        then show "dfs_loop_inv succs entry s0 (ys @ [x]) s'"
          using dfs_successor_step [where f = "f succs", OF 1(1) _ v0] by blast
      qed
      then show ?thesis by (rule dfs_post_enter [OF pre False en])
    qed
  qed
qed

lemma init_state_pre:
  "dfs_pre succs entry entry (init_state (replicate n 0) Map.empty n)"
  by (simp add: dfs_pre_def dfs_inv_def init_state_def reachable_entry)

lemma explored_closed:
  assumes ex: "\<forall>u. u \<in> V \<longrightarrow> (\<forall>w. w \<in> set (succs u) \<longrightarrow> w \<in> V)" and e: "entry \<in> V"
    and r: "reachable succs entry v"
  shows "v \<in> V"
  using r by (induction rule: reachable.induct) (use ex e in blast)+

text \<open>The state after the depth-first search from the entry, started by the constructor.\<close>

lemma dfs_from_init:
  assumes d: "dfs succs entry (init_state (replicate n 0) Map.empty n) = Some (Inr st)"
  shows "lt_inv st" "index_inv (m_vertexIndex st) (m_vertex st) (dfIdx st)"
    "length (m_vertex st) = n" "m_vertex st ! 0 = entry"
    "visited st = {v. reachable succs entry v}" "card {v. reachable succs entry v} = dfIdx st"
    "\<forall>v. reachable succs entry v \<longrightarrow> m_vertexIndex st v \<noteq> None"
proof -
  let ?i = "init_state (replicate n 0) Map.empty n"
  have post: "dfs_post succs entry entry ?i st"
    using dfs_correct_aux [OF d] init_state_pre by blast
  have inv: "dfs_inv succs entry st" and ext: "dfs_ext ?i st" and ev: "entry \<in> visited st"
    and te: "tree_edges (Suc 0) st" and ex: "explored succs ?i st"
    using post by (simp_all add: dfs_post_def init_state_def)
  have n: "length (m_vertex st) = n"
    and anc: "ancestor st = replicate n SIZE_MAX" and bk: "bucket st = replicate n []"
    and ido: "idom st = replicate n SIZE_MAX"
    using ext by (simp_all add: dfs_ext_def init_state_def)
  have len: "length (semi st) = n" "length (parent st) = n" "length (label st) = n"
    "length (predecessors st) = n" and rn: "dfIdx st \<le> n"
    using inv n by (simp_all add: dfs_inv_def)
  have fin: "finite (visited st)" and card: "card (visited st) = dfIdx st"
    using inv by (simp_all add: dfs_inv_def)
  have r: "0 < dfIdx st"
    using ev fin card by (cases "dfIdx st") auto
  have vis: "\<forall>i<dfIdx st. semi st ! i = i \<and> label st ! i = i"
    and unvis: "\<forall>i. dfIdx st \<le> i \<and> i < n \<longrightarrow> semi st ! i = SIZE_MAX \<and> label st ! i = 0"
    and par: "\<forall>i<n. parent st ! i = SIZE_MAX \<or> parent st ! i < i"
    and par': "\<forall>i. 0 < i \<and> i < dfIdx st \<longrightarrow> parent st ! i < i"
    using inv n by (simp_all add: dfs_inv_def)
  have forest: "forest_inv (semi st) (ancestor st) (label st)"
    unfolding forest_inv_def
  proof (intro conjI allI impI)
    show "length (ancestor st) = length (semi st)" "length (label st) = length (semi st)"
      using len anc by simp_all
  next
    fix i assume "i < length (semi st)"
    then have i: "i < n" using len by simp
    then show "ancestor st ! i = SIZE_MAX \<or> ancestor st ! i < i" by (simp add: anc)
    show "label st ! i \<le> i" "semi st ! (label st ! i) \<le> i"
      using vis unvis i r by (cases "i < dfIdx st"; simp)+
  qed
  have tree: "\<forall>i. 0 < i \<and> i < dfIdx st \<longrightarrow>
      parent st ! i < i \<and> parent st ! i \<in> set (predecessors st ! i)"
    using te par' by (simp add: tree_edges_def Suc_le_eq)
  show "lt_inv st"
    unfolding lt_inv_def using n len rn r forest vis par tree by (simp add: bk ido)
  show "index_inv (m_vertexIndex st) (m_vertex st) (dfIdx st)"
    using inv by (simp add: index_inv_def dfs_inv_def)
  show "length (m_vertex st) = n" by (rule n)
  show "m_vertex st ! 0 = entry" using inv r by (simp add: dfs_inv_def)
  have sound: "\<forall>v. v \<in> visited st \<longrightarrow> reachable succs entry v"
    using inv by (simp add: dfs_inv_def)
  have closed: "\<forall>u. u \<in> visited st \<longrightarrow> (\<forall>w. w \<in> set (succs u) \<longrightarrow> w \<in> visited st)"
    using ex by (simp add: explored_def init_state_def)
  have complete: "reachable succs entry v \<Longrightarrow> v \<in> visited st" for v
    by (rule explored_closed [OF closed ev])
  show eq: "visited st = {v. reachable succs entry v}"
    using sound complete by blast
  show "card {v. reachable succs entry v} = dfIdx st"
    using card by (simp add: eq)
  have "\<forall>v. v \<in> visited st \<longrightarrow> m_vertexIndex st v \<noteq> None"
    using inv by (simp add: dfs_inv_def)
  with complete show "\<forall>v. reachable succs entry v \<longrightarrow> m_vertexIndex st v \<noteq> None"
    by blast
qed

lemma Dominator_constructed:
  assumes "Dominator succs entry n = Some (Inr d)"
  shows "constructed succs entry n d"
proof -
  from assms obtain s where lt: "lengauerTarjanDominator succs entry n (replicate n 0) Map.empty = Some (Inr s)"
    and bt: "buildDominatorTree \<lparr>m_vertex = m_vertex s, m_vertexIndex = m_vertexIndex s,
        m_immediateDominator = idom s, m_dominatorTree = Map.empty\<rparr> = Some (Inr d)"
    by (auto simp: Dominator_def bnd_Inr)
  from lt obtain s1 s2 where d: "dfs succs entry (init_state (replicate n 0) Map.empty n) = Some (Inr s1)"
    and rp: "reverse_pass s1 = Some (Inr s2)" and fp: "fixup_pass s2 = Some (Inr s)"
    by (auto simp: lengauerTarjanDominator_def result_simps split: if_splits)
  note a = dfs_from_init [OF d]
  note b = reverse_pass_result [OF rp a(1,2)]
  have r: "0 < dfIdx s1" using a(1) by (simp add: lt_inv_def)
  have rn: "dfIdx s1 \<le> n" using a(1,3) by (simp add: lt_inv_def)
  have ix2: "index_inv (m_vertexIndex s2) (m_vertex s2) (dfIdx s2)" using b by blast
  have r2: "0 < dfIdx s2" using b r by simp
  have ido2: "\<forall>v. 0 < v \<and> v < dfIdx s2 \<longrightarrow> idom s2 ! v < v" using b by simp
  have c: "fixup_inv s2 s" by (rule fixup_pass_result [OF fp ix2 r2 ido2])
  have mv: "m_vertex s = m_vertex s1" using b c by (simp add: fixup_inv_def)
  have li: "length (idom s) = n" using b c a(3) by (simp add: fixup_inv_def)
  have ix: "index_inv (m_vertexIndex s) (m_vertex s1) (dfIdx s1)"
    using b c by (simp add: fixup_inv_def)
  have ok: "idom_ok (dfIdx s1) (idom s)" using b c by (simp add: fixup_inv_def)
  have known: "\<forall>v. reachable succs entry v \<longrightarrow> m_vertexIndex s v \<noteq> None"
  proof (intro allI impI)
    fix v assume "reachable succs entry v"
    with a(7) obtain j where "m_vertexIndex s1 v = Some j" by blast
    with b have "m_vertexIndex s2 v = Some j" by blast
    with c have "m_vertexIndex s v = Some j" unfolding fixup_inv_def by blast
    then show "m_vertexIndex s v \<noteq> None" by simp
  qed
  from bt have d: "d = \<lparr>m_vertex = m_vertex s, m_vertexIndex = m_vertexIndex s,
        m_immediateDominator = idom s,
        m_dominatorTree = fold (tree_add (idom s)) [1 ..< length (idom s)] Map.empty\<rparr>"
    by (auto simp: buildDominatorTree_def result_simps fail_def ret_def split: if_splits)
  show ?thesis
    unfolding constructed_def d
    using mv li a(3,4) r rn ix ok known by (simp add: a(6))
qed

lemma dominates_loop_entry:
  assumes ok: "idom_ok r ido" and r: "r \<le> length ido"
  shows "j < r \<Longrightarrow> dominates_loop ido 0 j = Some (Inr True)"
proof (induction j rule: less_induct)
  case (less j)
  show ?case
  proof (cases "j = 0")
    case True
    then show ?thesis by (simp add: dominates_loop.simps ret_def)
  next
    case False
    with ok less.prems have lt: "ido ! j < j" by (simp add: idom_ok_def)
    with less.prems have "ido ! j < r" by simp
    from less.IH [OF lt this] False less.prems r show ?thesis
      by (subst dominates_loop.simps) (simp add: result_defs)
  qed
qed

lemma dominates_loop_returns:
  assumes ok: "idom_ok r ido" and r: "r \<le> length ido"
  shows "j < r \<Longrightarrow> \<exists>b. dominates_loop ido a j = Some (Inr b)"
proof (induction j rule: less_induct)
  case (less j)
  show ?case
  proof (cases "j = 0 \<or> j = a")
    case True
    then show ?thesis by (subst dominates_loop.simps) (auto simp: ret_def)
  next
    case False
    with ok less.prems have lt: "ido ! j < j" by (simp add: idom_ok_def)
    with less.prems have "ido ! j < r" by simp
    from less.IH [OF lt this] obtain b where "dominates_loop ido a (ido ! j) = Some (Inr b)"
      by blast
    with False less.prems r show ?thesis
      by (subst dominates_loop.simps) (simp add: result_defs)
  qed
qed

lemma dominatorsOf_loop_walk:
  assumes ok: "idom_ok r ido" and r: "r \<le> length ido" "r \<le> length vs"
  shows "j < r \<Longrightarrow> \<exists>js. idom_walk ido j js \<and> (\<forall>k. k \<in> set js \<longrightarrow> 0 < k \<and> k \<le> j)
     \<and> dominatorsOf_loop vs ido acc j = Some (Inr (acc @ map (\<lambda>k. vs ! k) js))"
proof (induction j arbitrary: acc rule: less_induct)
  case (less j)
  show ?case
  proof (cases "j = 0")
    case True
    then have "idom_walk ido j [] \<and> (\<forall>k. k \<in> set [] \<longrightarrow> 0 < k \<and> k \<le> j)
      \<and> dominatorsOf_loop vs ido acc j = Some (Inr (acc @ map (\<lambda>k. vs ! k) []))"
      by (simp add: dominatorsOf_loop.simps ret_def)
    then show ?thesis by blast
  next
    case False
    with ok less.prems have lt: "ido ! j < j" by (simp add: idom_ok_def)
    with less.prems have "ido ! j < r" by simp
    from less.IH [OF lt this, of "acc @ [vs ! j]"] obtain js where
      w: "idom_walk ido (ido ! j) js" and b: "\<forall>k. k \<in> set js \<longrightarrow> 0 < k \<and> k \<le> ido ! j"
      and l: "dominatorsOf_loop vs ido (acc @ [vs ! j]) (ido ! j)
        = Some (Inr ((acc @ [vs ! j]) @ map (\<lambda>k. vs ! k) js))" by blast
    have "dominatorsOf_loop vs ido acc j = Some (Inr (acc @ map (\<lambda>k. vs ! k) (j # js)))"
      using False less.prems r l by (subst dominatorsOf_loop.simps) (simp add: result_defs)
    moreover have "idom_walk ido j (j # js)" using w False by simp
    moreover have "\<forall>k. k \<in> set (j # js) \<longrightarrow> 0 < k \<and> k \<le> j"
      using b lt False by auto
    ultimately show ?thesis by blast
  qed
qed

lemma idom_walk_head:
  "idom_walk ido k js \<Longrightarrow> k = 0 \<or> k \<in> set js"
  by (cases js) simp_all

lemma idom_walk_step:
  "idom_walk ido k js \<Longrightarrow> j \<in> set js \<Longrightarrow> ido ! j = 0 \<or> ido ! j \<in> set js"
proof (induction js arbitrary: k)
  case Nil
  then show ?case by simp
next
  case (Cons a js)
  have w: "idom_walk ido (ido ! a) js" using Cons.prems(1) by simp
  show ?case
  proof (cases "j = a")
    case True
    from idom_walk_head [OF w] True show ?thesis by auto
  next
    case False
    with Cons.prems(2) have "j \<in> set js" by simp
    from Cons.IH [OF w this] show ?thesis by auto
  qed
qed

text \<open>The queries on an object that the constructor returned.\<close>

lemma constructed_index:
  assumes c: "constructed succs entry n d"
  shows "m_vertexIndex d entry = Some 0"
    "reachable succs entry v \<Longrightarrow> \<exists>i. m_vertexIndex d v = Some i"
    "m_vertexIndex d v = Some i \<Longrightarrow> i < card {v. reachable succs entry v}"
    "m_vertexIndex d v = Some i \<Longrightarrow> i < n"
    "m_vertexIndex d v = Some i \<Longrightarrow> m_vertex d ! j = v \<Longrightarrow> j < card {v. reachable succs entry v} \<Longrightarrow> j = i"
proof -
  let ?r = "card {v. reachable succs entry v}"
  have ix: "index_inv (m_vertexIndex d) (m_vertex d) ?r" and r: "0 < ?r" "?r \<le> n"
    and e: "m_vertex d ! 0 = entry"
    and k: "\<forall>v. reachable succs entry v \<longrightarrow> m_vertexIndex d v \<noteq> None"
    using c by (simp_all add: constructed_def)
  have "m_vertexIndex d (m_vertex d ! 0) = Some 0"
    using ix r by (simp add: index_inv_def)
  then show "m_vertexIndex d entry = Some 0" by (simp add: e)
  show "reachable succs entry v \<Longrightarrow> \<exists>i. m_vertexIndex d v = Some i"
    using k by auto
  show "m_vertexIndex d v = Some i \<Longrightarrow> i < ?r"
    using ix unfolding index_inv_def by blast
  then show "m_vertexIndex d v = Some i \<Longrightarrow> i < n"
    using r by simp
  show "m_vertexIndex d v = Some i \<Longrightarrow> m_vertex d ! j = v \<Longrightarrow> j < ?r \<Longrightarrow> j = i"
    using ix unfolding index_inv_def by auto
qed

lemma update_same_index: "d\<lparr>m_vertexIndex := m_vertexIndex d\<rparr> = (d :: dominator)"
  by simp

lemma dominatorsOf_constructed:
  assumes c: "constructed succs entry n d" and i: "m_vertexIndex d v = Some i"
  shows "\<exists>js. idom_walk (m_immediateDominator d) (m_immediateDominator d ! i) js
     \<and> (\<forall>k. k \<in> set js \<longrightarrow> 0 < k \<and> k < card {v. reachable succs entry v} \<and> (i \<noteq> 0 \<longrightarrow> k < i))
     \<and> (i = 0 \<longrightarrow> js = [])
     \<and> dominatorsOf d v = Some (Inr (entry # map (\<lambda>k. m_vertex d ! k) js, d))"
proof -
  let ?r = "card {v. reachable succs entry v}"
  let ?ido = "m_immediateDominator d"
  have len: "length (m_vertex d) = n" "length ?ido = n" and r: "0 < ?r" "?r \<le> n"
    and e: "m_vertex d ! 0 = entry" and ok: "idom_ok ?r ?ido"
    using c by (simp_all add: constructed_def)
  have ir: "i < ?r" by (rule constructed_index(3) [OF c i])
  have i0: "i = 0 \<Longrightarrow> ?ido ! i = 0" using ok by (simp add: idom_ok_def)
  have j0: "i \<noteq> 0 \<longrightarrow> ?ido ! i < i" using ok ir by (simp add: idom_ok_def)
  have ji: "?ido ! i \<le> i" using i0 j0 by (cases "i = 0") simp_all
  have jr: "?ido ! i < ?r" using ji ir by simp
  have rl: "?r \<le> length ?ido" "?r \<le> length (m_vertex d)" using r len by simp_all
  from dominatorsOf_loop_walk [OF ok rl jr, of "[entry]"] obtain js where
    w: "idom_walk ?ido (?ido ! i) js" and b: "\<forall>k. k \<in> set js \<longrightarrow> 0 < k \<and> k \<le> ?ido ! i"
    and l: "dominatorsOf_loop (m_vertex d) ?ido [entry] (?ido ! i)
       = Some (Inr ([entry] @ map (\<lambda>k. m_vertex d ! k) js))" by blast
  have nonempty: "m_vertex d \<noteq> []" using len r by auto
  have z: "?ido ! i = 0 \<Longrightarrow> js = []" using w by (cases js) simp_all
  have sub: "subscript (m_vertexIndex d) v = (i, m_vertexIndex d)"
    by (rule subscript_known) (rule i)
  have at_i: "at ?ido i = Some (Inr (?ido ! i))"
    using ir r len by (simp add: at_def ret_def)
  have "dominatorsOf d v = Some (Inr (entry # map (\<lambda>k. m_vertex d ! k) js, d))"
  proof (cases "?ido ! i = 0")
    case True
    with z have "js = []" by simp
    with True show ?thesis
      by (simp add: dominatorsOf_def nonempty sub at_i bnd_def ret_def e)
  next
    case False
    then show ?thesis
      by (simp add: dominatorsOf_def nonempty sub at_i bnd_def ret_def e l)
  qed
  moreover have "\<forall>k. k \<in> set js \<longrightarrow> 0 < k \<and> k < ?r \<and> (i \<noteq> 0 \<longrightarrow> k < i)"
    using b jr j0 by auto
  moreover have "i = 0 \<longrightarrow> js = []" using z ji by auto
  ultimately show ?thesis using w by blast
qed

lemma bnd_ret: "bnd (ret x) f = f x"
  by (simp add: bnd_def ret_def)

lemma bnd_assoc: "bnd (bnd m f) g = bnd m (\<lambda>x. bnd (f x) g)"
  by (simp add: bnd_def split: option.splits sum.splits)

lemma bnd_cong_Inr: "(\<And>x. m = Some (Inr x) \<Longrightarrow> f x = g x) \<Longrightarrow> bnd m f = bnd m g"
  by (simp add: bnd_def split: option.splits sum.splits)

lemma for_each_append: "for_each (xs @ ys) f s = bnd (for_each xs f s) (for_each ys f)"
proof (induction xs arbitrary: s)
  case Nil
  show ?case by (simp add: bnd_ret)
next
  case (Cons x xs)
  have "bnd (f x s) (for_each (xs @ ys) f)
      = bnd (f x s) (\<lambda>s1. bnd (for_each xs f s1) (for_each ys f))"
    by (rule bnd_cong_Inr) (rule Cons.IH)
  then show ?case by (simp add: bnd_assoc)
qed

lemma eval_frame:
  "eval v st = Some (Inr (u, st')) \<Longrightarrow>
   m_vertex st' = m_vertex st \<and> m_vertexIndex st' = m_vertexIndex st"
  by (auto simp: eval_def result_simps split: if_splits prod.splits)

lemma bucket_step_frame:
  "bucket_step w v st = Some (Inr st') \<Longrightarrow>
   m_vertex st' = m_vertex st \<and> m_vertexIndex st' = m_vertexIndex st"
  by (auto simp: bucket_step_def result_simps dest!: eval_frame split: prod.splits)

lemma semi_step_frame:
  "semi_step w v st = Some (Inr st') \<Longrightarrow>
   m_vertex st' = m_vertex st \<and> m_vertexIndex st' = m_vertexIndex st"
  by (auto simp: semi_step_def result_simps dest!: eval_frame split: prod.splits if_splits)

lemma process_index_frame:
  assumes "process_index w st = Some (Inr st')"
  shows "m_vertex st' = m_vertex st \<and> m_vertexIndex st' = m_vertexIndex st"
proof -
  let ?I = "\<lambda>s. m_vertex s = m_vertex st \<and> m_vertexIndex s = m_vertexIndex st"
  from assms obtain b s1 where p1: "for_each b (bucket_step w) st = Some (Inr s1)"
    and r1: "bnd (at (predecessors s1) w) (\<lambda>ps.
      bnd (for_each ps (semi_step w) s1) (\<lambda>s2.
      bnd (at (semi s2) w) (\<lambda>sw.
      bnd (at (bucket s2) sw) (\<lambda>bs.
      bnd (put (bucket s2) sw (bs @ [w])) (\<lambda>bk.
      bnd (at (parent s2) w) (\<lambda>p.
        link p w (s2\<lparr>bucket := bk\<rparr>))))))) = Some (Inr st')"
    by (auto simp: process_index_def bnd_Inr)
  have i1: "?I s1"
    by (rule for_each_invariant [OF p1, where I = ?I]) (use bucket_step_frame in auto)
  from r1 obtain ps s2 where p2: "for_each ps (semi_step w) s1 = Some (Inr s2)"
    and r2: "bnd (at (semi s2) w) (\<lambda>sw.
      bnd (at (bucket s2) sw) (\<lambda>bs.
      bnd (put (bucket s2) sw (bs @ [w])) (\<lambda>bk.
      bnd (at (parent s2) w) (\<lambda>p.
        link p w (s2\<lparr>bucket := bk\<rparr>))))) = Some (Inr st')"
    by (auto simp: bnd_Inr)
  have i2: "?I s2"
    by (rule for_each_invariant [OF p2, where I = ?I, OF i1]) (use semi_step_frame in auto)
  from r2 have "m_vertex st' = m_vertex s2 \<and> m_vertexIndex st' = m_vertexIndex s2"
    by (auto simp: result_simps link_def)
  with i2 show ?thesis by simp
qed

lemma process_vertex_known:
  assumes "m_vertexIndex st x = Some k"
  shows "process_vertex x st = process_index k st"
  by (simp add: process_vertex_def subscript_known [where m = "m_vertexIndex st", OF assms])

lemma reverse_pass_by_index:
  assumes "k \<le> length (m_vertex st)"
    and "\<forall>i<k. m_vertexIndex st (m_vertex st ! i) = Some i"
  shows "for_each (rev (take k (m_vertex st))) process_vertex st
       = for_each (rev [0 ..< k]) process_index st"
  using assms
proof (induction k arbitrary: st)
  case 0
  show ?case by simp
next
  case (Suc k)
  let ?vs = "m_vertex st"
  have k: "k < length ?vs" using Suc.prems(1) by simp
  have l: "rev (take (Suc k) ?vs) = ?vs ! k # rev (take k ?vs)"
    using k by (simp add: take_Suc_conv_app_nth)
  have pv: "process_vertex (?vs ! k) st = process_index k st"
    by (rule process_vertex_known) (use Suc.prems(2) in simp)
  have "for_each (rev (take k ?vs)) process_vertex s = for_each (rev [0 ..< k]) process_index s"
    if "process_index k st = Some (Inr s)" for s
  proof -
    from process_index_frame [OF that]
    have f: "m_vertex s = ?vs" "m_vertexIndex s = m_vertexIndex st" by simp_all
    have "for_each (rev (take k (m_vertex s))) process_vertex s
        = for_each (rev [0 ..< k]) process_index s"
      by (rule Suc.IH) (use k Suc.prems(2) f in simp_all)
    then show ?thesis by (simp add: f)
  qed
  then have "bnd (process_index k st) (for_each (rev (take k ?vs)) process_vertex)
      = bnd (process_index k st) (for_each (rev [0 ..< k]) process_index)"
    by (rule bnd_cong_Inr)
  then show ?case by (simp add: l pv)
qed

lemma idom_ok_bound:
  assumes "idom_ok r ido" "j < r"
  shows "ido ! j < r"
proof (cases "j = 0")
  case True
  with assms show ?thesis by (simp add: idom_ok_def)
next
  case False
  with assms have "ido ! j < j" by (simp add: idom_ok_def)
  with assms(2) show ?thesis by simp
qed

lemma linear_chain_reachable_card: "card {v. reachable linear_chain vA v} = 4"
  using dfs_from_init(6) [OF linear_chain_dfs] by (simp add: chain_dfs_state_def)

lemma linear_chain_reachable_vD: "reachable linear_chain vA vD"
proof -
  have "reachable linear_chain vA vB"
    by (rule reachable_step [OF reachable_entry]) (simp add: scenario_defs)
  then have "reachable linear_chain vA vC"
    by (rule reachable_step) (simp add: scenario_defs)
  then show ?thesis
    by (rule reachable_step) (simp add: scenario_defs)
qed

lemma dominates_unfold:
  "dominates d a b =
     (if fst (subscript (m_vertexIndex d) a) = fst (subscript (inserted (m_vertexIndex d) {a}) b)
      then ret (True, d\<lparr>m_vertexIndex := inserted (m_vertexIndex d) {a, b}\<rparr>)
      else
        bnd (at (m_immediateDominator d) (fst (subscript (inserted (m_vertexIndex d) {a}) b)))
          (\<lambda>idomIdx.
        bnd (dominates_loop (m_immediateDominator d) (fst (subscript (m_vertexIndex d) a)) idomIdx)
          (\<lambda>r. ret (r, d\<lparr>m_vertexIndex := inserted (m_vertexIndex d) {a, b}\<rparr>))))"
proof -
  have "inserted (inserted (m_vertexIndex d) {a}) {b} = inserted (m_vertexIndex d) {a, b}"
    by (simp add: inserted_inserted insert_commute)
  then show ?thesis
    by (simp add: dominates_def snd_subscript split: prod.splits)
       (metis fst_conv snd_conv snd_subscript)
qed

section \<open>The end-to-end scenarios\<close>

text \<open>
  C8. On the linear chain with entry \<open>A\<close> and edges \<open>A\<rightarrow>B\<close>, \<open>B\<rightarrow>C\<close>, \<open>C\<rightarrow>D\<close>, constructed with
  four vertices, the vertices are numbered \<open>A, B, C, D\<close> and the immediate-dominator array is
  \<open>[0, 0, 1, 2]\<close>: \<open>idom(A) = A\<close> (the sentinel), \<open>idom(B) = A\<close>, \<open>idom(C) = B\<close>,
  \<open>idom(D) = C\<close>.
\<close>

theorem linear_chain_immediateDominators:
  "\<exists>d. Dominator linear_chain vA 4 = Some (Inr d)
     \<and> m_vertex d = [vA, vB, vC, vD]
     \<and> m_immediateDominator d = [0, 0, 1, 2]"
  by (simp add: linear_chain_Dominator chain_dominator_def)

text \<open>
  C2, at a failing input. The graph with the single vertex \<open>A\<close> and the edge \<open>A\<rightarrow>A\<close> has
  one reachable vertex. Constructed with \<open>numVertices = 1\<close>, the search gives \<open>A\<close> index 0
  and \<open>dfIdx\<close> becomes 1, the length of \<open>semi\<close>; the callback for the successor \<open>A\<close> then
  reads \<open>semi[dfIdx]\<close> (line 202), one element past the end, and the construction fails
  with \<open>OutOfBounds\<close>.
\<close>

theorem self_loop_reads_semi_out_of_bounds:
  "(case dfs_enter vA (init_state (replicate 1 0) Map.empty 1) of
      Some (Inr s) \<Rightarrow>
        dfIdx s = length (semi s)
        \<and> at (semi s) (dfIdx s) = Some (Inl OutOfBounds)
        \<and> dfs_successor (dfs self_loop) vA vA s = Some (Inl OutOfBounds)
    | _ \<Rightarrow> False)
   \<and> Dominator self_loop vA 1 = Some (Inl OutOfBounds)"
  by (simp add: result_defs model_defs scenario_defs SIZE_MAX_def dfs.simps replicate_numeral)

text \<open>
  C7. On the diamond with entry \<open>A\<close> and edges \<open>A\<rightarrow>B\<close>, \<open>A\<rightarrow>C\<close>, \<open>B\<rightarrow>D\<close>, \<open>C\<rightarrow>D\<close>, constructed
  with \<open>numVertices = 5\<close> (an upper bound on its four reachable vertices), the search numbers
  the vertices \<open>A, B, D, C\<close> and the immediate-dominator array gives index 0 for the
  indices 1, 2 and 3: \<open>idom(B) = A\<close>, \<open>idom(D) = A\<close>, \<open>idom(C) = A\<close>. On the object built,
  \<open>dominates(B, D)\<close> returns false and \<open>dominates(A, D)\<close> returns true, and both leave the
  object as it is. The fifth slot is never numbered: it keeps the value-initialised vertex
  and the undefined immediate dominator. (With exactly four slots the search reads
  \<open>semi[4]\<close>, see \<open>diamond_4_reads_semi_out_of_bounds\<close>.)
\<close>

theorem diamond_immediate_dominators:
  "\<exists>d. Dominator diamond vA 5 = Some (Inr d)
     \<and> m_vertex d = [vA, vB, vD, vC, 0]
     \<and> m_vertexIndex d vA = Some 0 \<and> m_vertexIndex d vB = Some 1
     \<and> m_vertexIndex d vD = Some 2 \<and> m_vertexIndex d vC = Some 3
     \<and> m_immediateDominator d = [0, 0, 0, 0, SIZE_MAX]
     \<and> dominates d vB vD = Some (Inr (False, d))
     \<and> dominates d vA vD = Some (Inr (True, d))"
proof -
  have "m_vertexIndex diamond_dominator vA = Some 0" "m_vertexIndex diamond_dominator vB = Some 1"
    "m_vertexIndex diamond_dominator vD = Some 2" "m_vertexIndex diamond_dominator vC = Some 3"
    by (simp_all add: diamond_dominator_def scenario_defs)
  moreover have "m_vertex diamond_dominator = [vA, vB, vD, vC, 0]"
    "m_immediateDominator diamond_dominator = [0, 0, 0, 0, SIZE_MAX]"
    by (simp_all add: diamond_dominator_def)
  ultimately show ?thesis
    by (simp add: diamond_Dominator_5 diamond_queries_5)
qed

section \<open>The queries and the state of the object\<close>

text \<open>
  C5, as stated: after construction no query changes the object. It fails for the object
  built for the linear chain and the query \<open>dominates(D, 7)\<close>, where 7 is not a vertex of
  the graph: \<open>operator[]\<close> inserts 7 into \<open>m_vertexIndex\<close>.
\<close>

theorem query_changes_vertexIndex_counterexample:
  "m_vertexIndex chain_dominator 7 = None
   \<and> for_each [Dominates vD 7] run_query chain_dominator
       = Some (Inr (chain_dominator\<lparr>m_vertexIndex := (m_vertexIndex chain_dominator)(7 \<mapsto> 0)\<rparr>))
   \<and> chain_dominator\<lparr>m_vertexIndex := (m_vertexIndex chain_dominator)(7 \<mapsto> 0)\<rparr>
       \<noteq> chain_dominator"
  by (simp add: result_defs scenario_defs query_defs chain_dominator_def fun_upd_idem_iff)

text \<open>
  C5, amended. A sequence of \<open>dominates\<close> and \<open>dominatorsOf\<close> calls that returns leaves the
  vertex table, the immediate-dominator array and the dominator tree unchanged; in
  \<open>m_vertexIndex\<close> every queried vertex that was absent is inserted with index 0 and nothing
  else changes; when every queried vertex is in \<open>m_vertexIndex\<close>, the object is unchanged.
\<close>

theorem queries_change_only_vertexIndex:
  assumes "for_each qs run_query d = Some (Inr d')"
  shows "m_vertex d' = m_vertex d
    \<and> m_immediateDominator d' = m_immediateDominator d
    \<and> m_dominatorTree d' = m_dominatorTree d
    \<and> m_vertexIndex d' = inserted (m_vertexIndex d) (\<Union>q\<in>set qs. query_vertices q)
    \<and> ((\<Union>q\<in>set qs. query_vertices q) \<subseteq> dom (m_vertexIndex d) \<longrightarrow> d' = d)"
  using run_queries_state [OF assms] by (simp add: inserted_known)

lemma chain_queries_known:
  "for_each [Dominates vD vB, DominatorsOf vC, Dominates vA vD] run_query chain_dominator
     = Some (Inr chain_dominator)"
  by (simp add: result_defs scenario_defs query_defs chain_dominator_def)

theorem queries_change_only_vertexIndex_witness:
  "for_each [Dominates vD vB, DominatorsOf vC, Dominates vA vD] run_query chain_dominator
     = Some (Inr chain_dominator)
   \<and> (\<Union>q\<in>set [Dominates vD vB, DominatorsOf vC, Dominates vA vD]. query_vertices q)
        \<subseteq> dom (m_vertexIndex chain_dominator)
   \<and> m_vertexIndex chain_dominator
        = inserted (m_vertexIndex chain_dominator)
            (\<Union>q\<in>set [Dominates vD vB, DominatorsOf vC, Dominates vA vD]. query_vertices q)"
proof -
  have known: "(\<Union>q\<in>set [Dominates vD vB, DominatorsOf vC, Dominates vA vD]. query_vertices q)
      \<subseteq> dom (m_vertexIndex chain_dominator)"
    by (simp add: scenario_defs chain_dominator_def)
  from queries_change_only_vertexIndex [OF chain_queries_known] chain_queries_known known
  show ?thesis by blast
qed

section \<open>The reverse loop and the entry\<close>

text \<open>
  C4, as stated: the reverse loop runs from \<open>n - 1\<close> down to 1 and never executes its body
  for index 0. It fails on the state after the search of the linear chain: the loop of the
  code and the loop that stops at index 1 end in different states.
\<close>

theorem reverse_pass_spec_counterexample:
  "reverse_pass chain_dfs_state \<noteq> reverse_pass_spec chain_dfs_state"
  by (simp add: result_defs model_defs reverse_pass_spec_def scenario_defs SIZE_MAX_def
      compressPath.simps chain_dfs_state_def upt_conv_Cons Suc_numerals)

text \<open>
  C4, amended. The loop of lines 213-242 runs over the whole vertex table from \<open>rbegin\<close> to
  \<open>rend\<close>. When every slot holds a numbered vertex, it executes its body (bucket step,
  semidominator step, bucket append, link) for the indices \<open>n - 1\<close> down to 0 in this
  order: it is the loop from \<open>n - 1\<close> down to 1 followed by the body for index 0, which is
  not skipped.
\<close>

theorem reverse_pass_processes_entry:
  assumes "\<forall>i<length (m_vertex st). m_vertexIndex st (m_vertex st ! i) = Some i"
    and "m_vertex st \<noteq> []"
  shows "reverse_pass st = for_each (rev [0 ..< length (m_vertex st)]) process_index st
    \<and> reverse_pass st = bnd (reverse_pass_spec st) (process_index 0)"
proof -
  let ?n = "length (m_vertex st)"
  have a: "reverse_pass st = for_each (rev [0 ..< ?n]) process_index st"
    using reverse_pass_by_index [of ?n st] assms(1) by (simp add: reverse_pass_def)
  have "0 < ?n" using assms(2) by simp
  then have "[0 ..< ?n] = 0 # [1 ..< ?n]" by (simp add: upt_conv_Cons)
  then have "rev [0 ..< ?n] = rev [1 ..< ?n] @ [0]" by simp
  then have "for_each (rev [0 ..< ?n]) process_index st
      = bnd (reverse_pass_spec st) (for_each [0] process_index)"
    by (simp add: for_each_append reverse_pass_spec_def)
  moreover have "for_each [0] process_index = process_index 0"
    by (rule ext) (simp add: bnd_def ret_def split: option.splits sum.splits)
  ultimately show ?thesis using a by simp
qed

theorem reverse_pass_processes_entry_witness:
  "m_vertex chain_dfs_state \<noteq> []
   \<and> reverse_pass chain_dfs_state
       = for_each (rev [0 ..< length (m_vertex chain_dfs_state)]) process_index chain_dfs_state
   \<and> reverse_pass chain_dfs_state
       = bnd (reverse_pass_spec chain_dfs_state) (process_index 0)"
proof -
  have h: "\<forall>i<length (m_vertex chain_dfs_state).
      m_vertexIndex chain_dfs_state (m_vertex chain_dfs_state ! i) = Some i"
    by (simp add: chain_dfs_state_def scenario_defs less_Suc_eq numeral_eq_Suc)
  have ne: "m_vertex chain_dfs_state \<noteq> []" by (simp add: chain_dfs_state_def)
  from reverse_pass_processes_entry [OF h ne] ne show ?thesis by blast
qed

section \<open>The immediate-dominator array\<close>

text \<open>
  C9. For every graph, entry and \<open>numVertices\<close> for which the constructor returns, the
  immediate-dominator array has \<open>idom[0] = 0\<close> and \<open>idom[i] < i\<close> for every index \<open>i\<close> in
  \<open>[1, n)\<close>, where \<open>n\<close> is the number of vertices reachable from the entry.
\<close>

theorem immediate_dominator_precedes:
  assumes "Dominator succs entry numVertices = Some (Inr d)"
  shows "m_immediateDominator d ! 0 = 0
    \<and> (\<forall>i. 1 \<le> i \<and> i < card {v. reachable succs entry v} \<longrightarrow> m_immediateDominator d ! i < i)"
proof -
  have "idom_ok (card {v. reachable succs entry v}) (m_immediateDominator d)"
    using Dominator_constructed [OF assms] by (simp add: constructed_def)
  then show ?thesis by (simp add: idom_ok_def)
qed

theorem immediate_dominator_precedes_witness:
  "Dominator linear_chain vA 4 = Some (Inr chain_dominator)
   \<and> m_immediateDominator chain_dominator ! 0 = 0
   \<and> (1::nat) \<le> 3 \<and> 3 < card {v. reachable linear_chain vA v}
   \<and> m_immediateDominator chain_dominator ! 3 < 3"
proof -
  have "(1::nat) \<le> 3 \<and> 3 < card {v. reachable linear_chain vA v}"
    by (simp add: linear_chain_reachable_card)
  with immediate_dominator_precedes [OF linear_chain_Dominator] linear_chain_Dominator
  show ?thesis by blast
qed

section \<open>Queries on reachable vertices\<close>

text \<open>
  C10. For every object that the constructor returns and every vertex \<open>v\<close> reachable from
  the entry, the entry is \<open>vertex[0]\<close> and \<open>dominates(entry, v)\<close> returns true (and leaves the
  object unchanged).
\<close>

theorem entry_dominates_reachable:
  assumes "Dominator succs entry numVertices = Some (Inr d)" and "reachable succs entry v"
  shows "m_vertex d ! 0 = entry \<and> dominates d entry v = Some (Inr (True, d))"
proof -
  let ?r = "card {v. reachable succs entry v}"
  let ?ido = "m_immediateDominator d"
  note c = Dominator_constructed [OF assms(1)]
  have len: "length ?ido = numVertices" and r: "?r \<le> numVertices"
    and e: "m_vertex d ! 0 = entry" and ok: "idom_ok ?r ?ido"
    using c by (simp_all add: constructed_def)
  have ie: "m_vertexIndex d entry = Some 0" by (rule constructed_index(1) [OF c])
  obtain i where i: "m_vertexIndex d v = Some i"
    using constructed_index(2) [OF c assms(2)] by blast
  have ir: "i < ?r" by (rule constructed_index(3) [OF c i])
  have known: "inserted (m_vertexIndex d) {entry} = m_vertexIndex d"
    "inserted (m_vertexIndex d) {entry, v} = m_vertexIndex d"
    by (rule inserted_known, use ie i in auto)+
  have sub: "fst (subscript (m_vertexIndex d) entry) = 0" "fst (subscript (m_vertexIndex d) v) = i"
    using ie i by (simp_all add: fst_subscript)
  have "dominates d entry v = Some (Inr (True, d))"
  proof (cases "i = 0")
    case True
    then show ?thesis by (simp add: dominates_unfold known sub ret_def)
  next
    case False
    from ok ir have "?ido ! i < ?r" by (rule idom_ok_bound)
    from dominates_loop_entry [OF ok _ this] r len
    have "dominates_loop ?ido 0 (?ido ! i) = Some (Inr True)" by simp
    with False ir r len show ?thesis
      by (simp add: dominates_unfold known sub bnd_def at_def ret_def)
  qed
  with e show ?thesis by simp
qed

theorem entry_dominates_reachable_witness:
  "Dominator linear_chain vA 4 = Some (Inr chain_dominator)
   \<and> reachable linear_chain vA vD
   \<and> m_vertex chain_dominator ! 0 = vA
   \<and> dominates chain_dominator vA vD = Some (Inr (True, chain_dominator))"
  using entry_dominates_reachable [OF linear_chain_Dominator linear_chain_reachable_vD]
    linear_chain_Dominator linear_chain_reachable_vD
  by blast

text \<open>
  C3, as stated: \<open>dominatorsOf(v)\<close> lists the entry and then the strict dominators by
  increasing proximity to \<open>v\<close>, the immediate dominator last. It fails on the linear chain:
  \<open>dominatorsOf(D)\<close> returns \<open>A, C, B\<close>, with the immediate dominator \<open>C\<close> of \<open>D\<close> second.
\<close>

theorem dominatorsOf_order_counterexample:
  "dominatorsOf chain_dominator vD = Some (Inr ([vA, vC, vB], chain_dominator))
   \<and> m_vertex chain_dominator ! (m_immediateDominator chain_dominator ! 3) = vC
   \<and> [vA, vC, vB] \<noteq> [vA, vB, vC]
   \<and> last [vA, vC, vB] \<noteq> vC"
  by (simp add: result_defs scenario_defs query_defs chain_dominator_def)

text \<open>
  C3, amended. For every reachable vertex \<open>v\<close>, \<open>dominatorsOf(v)\<close> returns the entry first
  and then the chain of immediate dominators in the order the loop walks it: the immediate
  dominator of \<open>v\<close> directly after the entry, then the immediate dominator of that vertex,
  and so on up to the vertex whose immediate dominator is the entry. The chain is not
  reversed.
\<close>

theorem dominatorsOf_entry_then_idom_chain:
  assumes "Dominator succs entry numVertices = Some (Inr d)" and "reachable succs entry v"
  shows "\<exists>i js. m_vertexIndex d v = Some i
     \<and> idom_walk (m_immediateDominator d) (m_immediateDominator d ! i) js
     \<and> dominatorsOf d v = Some (Inr (entry # map (\<lambda>k. m_vertex d ! k) js, d))"
proof -
  note c = Dominator_constructed [OF assms(1)]
  obtain i where i: "m_vertexIndex d v = Some i"
    using constructed_index(2) [OF c assms(2)] by blast
  from dominatorsOf_constructed [OF c i] i show ?thesis by blast
qed

theorem dominatorsOf_entry_then_idom_chain_witness:
  "Dominator linear_chain vA 4 = Some (Inr chain_dominator)
   \<and> reachable linear_chain vA vD
   \<and> (\<exists>i js. m_vertexIndex chain_dominator vD = Some i
        \<and> idom_walk (m_immediateDominator chain_dominator)
             (m_immediateDominator chain_dominator ! i) js
        \<and> dominatorsOf chain_dominator vD
             = Some (Inr (vA # map (\<lambda>k. m_vertex chain_dominator ! k) js, chain_dominator)))"
  using dominatorsOf_entry_then_idom_chain [OF linear_chain_Dominator linear_chain_reachable_vD]
    linear_chain_Dominator linear_chain_reachable_vD
  by blast

text \<open>
  C6, at two failing inputs. The claim: for a reachable \<open>v\<close>, \<open>dominatorsOf(v)\<close> holds exactly
  the strict dominators of \<open>v\<close>, and never \<open>v\<close> itself. The note above \<open>dominatorsOf\<close> (line
  95) says the same of \<open>v\<close>, and the comment of line 99 that the entry dominates all
  \<^emph>\<open>other\<close> nodes.

  \<^item> On the linear chain constructed with four vertices, \<open>dominatorsOf(A)\<close> for the entry \<open>A\<close>
    returns the sequence with \<open>A\<close> alone: lines 100-104 return \<open>m_vertex[0]\<close> also when \<open>v\<close>
    is the entry, so the result contains \<open>v\<close> itself.
  \<^item> On the chain with entry 1 and edges \<open>1\<rightarrow>0\<close>, \<open>0\<rightarrow>2\<close>, constructed with \<open>numVertices = 4\<close>,
    \<open>dominatorsOf(2)\<close> returns the entry 1 alone although 0 is a strict dominator of 2. The
    loop of lines 213-242 also runs for the slot that the search left unnumbered; the
    slot holds the vertex 0, so index 1 is processed before index 2 and the immediate
    dominator of index 2 comes out as 0 instead of 1. Constructed with \<open>numVertices = 3\<close>,
    the same graph gives \<open>dominatorsOf(2)\<close> the vertices 1 and 0.
\<close>

theorem dominatorsOf_differs_from_strict_dominators:
  "(\<exists>d. Dominator linear_chain vA 4 = Some (Inr d)
      \<and> dominatorsOf d vA = Some (Inr ([vA], d)))
   \<and> (\<exists>d. Dominator short_chain 1 4 = Some (Inr d)
      \<and> dominatorsOf d 2 = Some (Inr ([1], d))
      \<and> strict_dominator short_chain 1 0 2)
   \<and> (\<exists>d. Dominator short_chain 1 3 = Some (Inr d)
      \<and> dominatorsOf d 2 = Some (Inr ([1, 0], d)))"
proof (intro conjI)
  have "dominatorsOf chain_dominator vA = Some (Inr ([vA], chain_dominator))"
    by (simp add: result_defs scenario_defs query_defs chain_dominator_def)
  then show "\<exists>d. Dominator linear_chain vA 4 = Some (Inr d)
      \<and> dominatorsOf d vA = Some (Inr ([vA], d))"
    by (simp add: linear_chain_Dominator)
  show "\<exists>d. Dominator short_chain 1 4 = Some (Inr d)
      \<and> dominatorsOf d 2 = Some (Inr ([1], d))
      \<and> strict_dominator short_chain 1 0 2"
    using short_chain_Dominator_4 short_chain_dominatorsOf(1) short_chain_strict_dominator
    by blast
  show "\<exists>d. Dominator short_chain 1 3 = Some (Inr d)
      \<and> dominatorsOf d 2 = Some (Inr ([1, 0], d))"
    using short_chain_Dominator_3 short_chain_dominatorsOf(2) by blast
qed

section \<open>Queries on absent vertices\<close>

text \<open>
  C1, as stated: a query with a vertex absent from \<open>m_vertexIndex\<close> signals an error instead
  of returning a boolean or a sequence. It fails on the object built for the linear chain
  and the vertex 7, which is not in the graph: \<open>dominates(D, 7)\<close> returns false and
  \<open>dominatorsOf(7)\<close> returns the entry alone.
\<close>

theorem absent_vertex_answered_counterexample:
  "m_vertexIndex chain_dominator 7 = None
   \<and> dominates chain_dominator vD 7
       = Some (Inr (False, chain_dominator\<lparr>m_vertexIndex := (m_vertexIndex chain_dominator)(7 \<mapsto> 0)\<rparr>))
   \<and> dominatorsOf chain_dominator 7
       = Some (Inr ([vA], chain_dominator\<lparr>m_vertexIndex := (m_vertexIndex chain_dominator)(7 \<mapsto> 0)\<rparr>))"
  by (simp add: result_defs scenario_defs query_defs chain_dominator_def)

text \<open>
  C1, amended. A query on an object that the constructor returned, with a vertex \<open>v\<close> that
  is absent from \<open>m_vertexIndex\<close>, signals no error: \<open>operator[]\<close> inserts \<open>v\<close> with index 0
  and the query answers as it does for index 0. \<open>dominatorsOf(v)\<close> returns the entry alone,
  \<open>dominates(v, b)\<close> returns true for every \<open>b\<close>, and \<open>dominates(a, v)\<close> returns whether the
  index of \<open>a\<close> is 0.
\<close>

theorem absent_vertex_treated_as_entry:
  assumes "Dominator succs entry numVertices = Some (Inr d)" and "m_vertexIndex d v = None"
  shows "dominatorsOf d v
       = Some (Inr ([entry], d\<lparr>m_vertexIndex := (m_vertexIndex d)(v \<mapsto> 0)\<rparr>))
    \<and> (\<forall>b. dominates d v b
          = Some (Inr (True, d\<lparr>m_vertexIndex := inserted (m_vertexIndex d) {v, b}\<rparr>)))
    \<and> (\<forall>a. dominates d a v
          = Some (Inr (fst (subscript (m_vertexIndex d) a) = 0,
               d\<lparr>m_vertexIndex := inserted (m_vertexIndex d) {a, v}\<rparr>)))"
proof -
  let ?r = "card {v. reachable succs entry v}"
  let ?ido = "m_immediateDominator d"
  let ?m = "m_vertexIndex d"
  note c = Dominator_constructed [OF assms(1)]
  have len: "length (m_vertex d) = numVertices" "length ?ido = numVertices"
    and r: "0 < ?r" "?r \<le> numVertices"
    and e: "m_vertex d ! 0 = entry" and ok: "idom_ok ?r ?ido"
    and ix: "index_inv ?m (m_vertex d) ?r"
    using c by (simp_all add: constructed_def)
  have ido0: "?ido ! 0 = 0" using ok by (simp add: idom_ok_def)
  have n: "0 < numVertices" using r by simp
  have nonempty: "m_vertex d \<noteq> []" using len n by auto
  have subv: "subscript ?m v = (0, ?m(v \<mapsto> 0))"
    using assms(2) by (simp add: subscript_def)
  have a: "dominatorsOf d v = Some (Inr ([entry], d\<lparr>m_vertexIndex := ?m(v \<mapsto> 0)\<rparr>))"
    using n len ido0 by (simp add: dominatorsOf_def nonempty subv bnd_def at_def ret_def e)
  have b: "dominates d v b = Some (Inr (True, d\<lparr>m_vertexIndex := inserted ?m {v, b}\<rparr>))" for b
  proof -
    let ?j = "fst (subscript (inserted ?m {v}) b)"
    have jr: "?j < ?r"
      using ix r by (auto simp: fst_subscript inserted_def index_inv_def split: option.splits)
    show ?thesis
    proof (cases "?j = 0")
      case True
      then show ?thesis by (simp add: dominates_unfold subv ret_def)
    next
      case False
      from ok jr have "?ido ! ?j < ?r" by (rule idom_ok_bound)
      from dominates_loop_entry [OF ok _ this] r len
      have "dominates_loop ?ido 0 (?ido ! ?j) = Some (Inr True)" by simp
      with False jr r len show ?thesis
        by (simp add: dominates_unfold subv bnd_def at_def ret_def)
    qed
  qed
  have c': "dominates d a v = Some (Inr (fst (subscript ?m a) = 0,
      d\<lparr>m_vertexIndex := inserted ?m {a, v}\<rparr>))" for a
  proof -
    have j: "fst (subscript (inserted ?m {a}) v) = 0"
      using assms(2) by (simp add: fst_subscript inserted_def)
    have loop: "dominates_loop ?ido x 0 = Some (Inr (0 = x))" for x
      by (simp add: dominates_loop.simps ret_def)
    show ?thesis
      using n len ido0 by (auto simp: dominates_unfold j bnd_def at_def ret_def loop)
  qed
  from a b c' show ?thesis by blast
qed

theorem absent_vertex_treated_as_entry_witness:
  "Dominator linear_chain vA 4 = Some (Inr chain_dominator)
   \<and> m_vertexIndex chain_dominator 7 = None
   \<and> dominatorsOf chain_dominator 7
       = Some (Inr ([vA], chain_dominator\<lparr>m_vertexIndex := (m_vertexIndex chain_dominator)(7 \<mapsto> 0)\<rparr>))
   \<and> dominates chain_dominator 7 vD
       = Some (Inr (True,
            chain_dominator\<lparr>m_vertexIndex := inserted (m_vertexIndex chain_dominator) {7, vD}\<rparr>))"
proof -
  have h: "m_vertexIndex chain_dominator 7 = None"
    by (simp add: chain_dominator_def scenario_defs)
  from absent_vertex_treated_as_entry [OF linear_chain_Dominator h] linear_chain_Dominator h
  show ?thesis by blast
qed

end
